theory Spec2Isabelle
  imports Main "HOL-Library.AList" "HOL-Library.Char_ord" "HOL-Library.List_Lexorder"
    "HOL-Library.Product_Lexorder"
begin

section \<open>Data model\<close>

text \<open>
  The analyzer (\<^verbatim>\<open>analizer.ts\<close>) and the runtime hook (\<^verbatim>\<open>useTranslate\<close>) work on
  values produced by \<^verbatim>\<open>JSON.parse\<close>. A JSON object is the list of its own properties
  in enumeration order; no object of the program has two properties of one name, so the
  theorems about whole trees assume distinct sibling keys. The properties every object
  inherits from \<^verbatim>\<open>Object.prototype\<close> are not part of the list: \<^verbatim>\<open>getKeys\<close> and
  \<^verbatim>\<open>removeKey\<close> test \<^verbatim>\<open>hasOwnProperty\<close>, and an inherited property is a function or
  the prototype object, never a plain object created by the program. The one inherited name
  that matters is the accessor \<^verbatim>\<open>__proto__\<close>: where \<^verbatim>\<open>setNestedKey\<close> meets that segment on
  an object without an own property of the name, it works on \<^verbatim>\<open>Object.prototype\<close> and the
  document stays as it is. The prototype objects themselves are not part of the model,
  which takes them to be as the runtime starts them: it is the analyzer's as long as the
  process has added no key with a segment \<^verbatim>\<open>__proto__\<close>. JavaScript lists the properties
  whose names are array indices before the others; the lists here keep the order in
  which the properties were added, and the theorems speak of lookups and of sets of keys.
  Strings are \<^typ>\<open>string\<close>; a number carries an integer, since the programs only
  test a number for being zero and copy it.
\<close>

datatype json =
    JNull
  | JBool bool
  | JNum int
  | JStr string
  | JArr "json list"
  | JObj "(string \<times> json) list"

text \<open>JavaScript truthiness, as \<^verbatim>\<open>if (data)\<close>, \<^verbatim>\<open>!data\<close> and \<^verbatim>\<open>data || {}\<close> read it.\<close>

fun truthy :: "json \<Rightarrow> bool" where
  "truthy JNull = False"
| "truthy (JBool b) = b"
| "truthy (JNum n) = (n \<noteq> 0)"
| "truthy (JStr s) = (s \<noteq> [])"
| "truthy (JArr xs) = True"
| "truthy (JObj ps) = True"

text \<open>\<^verbatim>\<open>typeof v === "object" && !Array.isArray(v)\<close>: a plain object or \<^verbatim>\<open>null\<close>.\<close>

fun is_object :: "json \<Rightarrow> bool" where
  "is_object JNull = True"
| "is_object (JObj ps) = True"
| "is_object _ = False"

text \<open>
  A \<^verbatim>\<open>Set<string>\<close> is the list of its elements in insertion order; \<^verbatim>\<open>add\<close> of an
  element already present changes nothing.
\<close>

definition set_add :: "string \<Rightarrow> string list \<Rightarrow> string list" where
  "set_add k keys = (if k \<in> set keys then keys else keys @ [k])"

text \<open>\<^verbatim>\<open>s.split(".")\<close>: the segments between the separators, never an empty list.\<close>

fun split_on :: "char \<Rightarrow> string \<Rightarrow> string list" where
  "split_on d [] = [[]]"
| "split_on d (c # cs) =
     (if c = d then [] # split_on d cs
      else (case split_on d cs of
              [] \<Rightarrow> [[c]]
            | s # ss \<Rightarrow> (c # s) # ss))"

definition split_dot :: "string \<Rightarrow> string list" where
  "split_dot s = split_on CHR ''.'' s"

text \<open>The index that a property name denotes on an array: its canonical decimal name.\<close>

definition is_digit :: "char \<Rightarrow> bool" where
  "is_digit c = (CHR ''0'' \<le> c \<and> c \<le> CHR ''9'')"

definition array_index :: "string \<Rightarrow> nat option" where
  "array_index k =
     (if k \<noteq> [] \<and> list_all is_digit k \<and> (k = ''0'' \<or> hd k \<noteq> CHR ''0'')
      then Some (fold (\<lambda>c n. 10 * n + (of_char c - 48)) k 0)
      else None)"

section \<open>Key extractor\<close>

text \<open>
  \<^verbatim>\<open>getKeys(obj, prefix = "")\<close>. The loop over the own properties is \<open>getKeys_loop\<close>,
  with the set \<^verbatim>\<open>keys\<close> built so far as its last argument.
\<close>

fun getKeys :: "json \<Rightarrow> string \<Rightarrow> string list"
and getKeys_loop :: "(string \<times> json) list \<Rightarrow> string \<Rightarrow> string list \<Rightarrow> string list"
where
  "getKeys (JObj ps) prefix = getKeys_loop ps prefix []"
| "getKeys JNull prefix = []"
| "getKeys (JBool b) prefix = []"
| "getKeys (JNum n) prefix = []"
| "getKeys (JStr s) prefix = []"
| "getKeys (JArr xs) prefix = []"
| "getKeys_loop [] prefix keys = keys"
| "getKeys_loop ((key, v) # ps) prefix keys =
     (let fullKey = (if prefix \<noteq> [] then prefix @ ''.'' @ key else key) in
      getKeys_loop ps prefix
        (case v of
           JObj cs \<Rightarrow> fold set_add (getKeys v fullKey) keys
         | _ \<Rightarrow> set_add fullKey keys))"

text \<open>
  Where the walk of \<^verbatim>\<open>setNestedKey\<close> leaves the document it goes on in objects of the
  runtime, and the document is not touched again; what is left to say is whether the
  call returns. \<open>walkOutside place keyPath\<close> says so for the segments still to do, from
  \<^verbatim>\<open>Object.prototype\<close>, from \<^verbatim>\<open>String.prototype\<close>, or from any other object that is
  no part of the document. The accessor \<^verbatim>\<open>__proto__\<close> leads such an object to
  \<^verbatim>\<open>Object.prototype\<close>, where it reads \<^verbatim>\<open>null\<close>, so that the walk assigns \<^verbatim>\<open>{}\<close> to it,
  which throws \<^verbatim>\<open>TypeError\<close>; so does every assignment to the \<^verbatim>\<open>length\<close> of
  \<^verbatim>\<open>String.prototype\<close>; every other step finds or makes an object and goes on.
\<close>

datatype place = ObjectPrototype | StringPrototype | OtherObject

fun walkOutside :: "place \<Rightarrow> string list \<Rightarrow> bool" where
  "walkOutside pl [] = True"
| "walkOutside pl [k] = (\<not> (pl = StringPrototype \<and> k = ''length''))"
| "walkOutside pl (k # rest) =
     (if k = ''__proto__'' then pl \<noteq> ObjectPrototype \<and> walkOutside ObjectPrototype rest
      else \<not> (pl = StringPrototype \<and> k = ''length'') \<and> walkOutside OtherObject rest)"

text \<open>
  \<^verbatim>\<open>setNestedKey(obj, keyPath, value)\<close> on the properties of a plain object \<^verbatim>\<open>obj\<close>: the
  properties after the call, or \<open>None\<close> where the call throws. The loop walks down one
  segment at a time, replacing whatever is not a plain object by \<^verbatim>\<open>{}\<close>; an assignment
  to an existing property keeps its place, a new property goes last. For an empty path
  JavaScript reads \<^verbatim>\<open>keyPath[-1]\<close>, which is \<^verbatim>\<open>undefined\<close>, and assigns the property of
  that name. A segment \<^verbatim>\<open>__proto__\<close> that is no own property is read and assigned
  through the inherited accessor: as the last segment the setter drops the string, as
  an earlier one the walk goes on in \<^verbatim>\<open>Object.prototype\<close>; either way the object is
  left as it was.
\<close>

definition inherited_accessor :: "(string \<times> json) list \<Rightarrow> string \<Rightarrow> bool" where
  "inherited_accessor obj k = (k = ''__proto__'' \<and> map_of obj k = None)"

fun setNestedKey ::
  "(string \<times> json) list \<Rightarrow> string list \<Rightarrow> string \<Rightarrow> (string \<times> json) list option" where
  "setNestedKey obj [] v = Some (AList.update ''undefined'' (JStr v) obj)"
| "setNestedKey obj [k] v =
     Some (if inherited_accessor obj k then obj else AList.update k (JStr v) obj)"
| "setNestedKey obj (k # rest) v =
     (if inherited_accessor obj k then
        (if walkOutside ObjectPrototype rest then Some obj else None)
      else map_option (\<lambda>child. AList.update k (JObj child) obj)
             (setNestedKey (case map_of obj k of Some (JObj cs) \<Rightarrow> cs | _ \<Rightarrow> []) rest v))"

lemma size_map_of: "map_of ps k = Some c \<Longrightarrow> size c < size (JObj ps)"
  by (induction ps) (auto split: if_splits)

text \<open>
  \<^verbatim>\<open>removeKey(obj, keyPath)\<close> returns whether it removed something, together with the
  object as the in-place deletions leave it. A child that is \<^verbatim>\<open>null\<close> passes the
  \<^verbatim>\<open>typeof\<close> test of the recursive branch and is rejected by the first line of the
  recursive call. An empty path has \<^verbatim>\<open>keyPath[0]\<close> undefined and \<^verbatim>\<open>keyPath.slice(1)\<close>
  empty again.
\<close>

function (sequential) removeKey :: "json \<Rightarrow> string list \<Rightarrow> bool \<times> json" where
  "removeKey (JObj ps) [k] =
     (if map_of ps k \<noteq> None then (True, JObj (AList.delete k ps)) else (False, JObj ps))"
| "removeKey (JObj ps) keyPath =
     (let currentKey = (case keyPath of [] \<Rightarrow> ''undefined'' | k # _ \<Rightarrow> k) in
      case map_of ps currentKey of
        None \<Rightarrow> (False, JObj ps)
      | Some child \<Rightarrow>
          if is_object child then
            (case removeKey child (tl keyPath) of
               (removed, child') \<Rightarrow>
                 if removed then
                   (True, JObj (if child' = JObj [] then AList.delete currentKey ps
                                else AList.update currentKey child' ps))
                 else (False, JObj ps))
          else (False, JObj ps))"
| "removeKey v keyPath = (False, v)"
  by pat_completeness auto
termination
  by (relation "measure (\<lambda>(v, p). size v)") (auto dest: size_map_of)

text \<open>The value a path leads to through own properties, if every segment is present.\<close>

fun valueAt :: "json \<Rightarrow> string list \<Rightarrow> json option" where
  "valueAt v [] = Some v"
| "valueAt (JObj ps) (k # ks) = (case map_of ps k of None \<Rightarrow> None | Some c \<Rightarrow> valueAt c ks)"
| "valueAt v (k # ks) = None"

section \<open>Flattened keys and leaves\<close>

text \<open>
  The notions the statements about whole trees are written in. A leaf is a value that is
  not a plain object; \<open>leafAt t p\<close> is the leaf the path \<open>p\<close> leads to in \<open>t\<close>. A tree is
  \<open>well_keyed\<close> when no object in it has two properties of one name and no property
  name is empty or contains the separator. \<open>string_leaves\<close> says that the tree is built
  from plain objects and strings only.
\<close>

definition leafAt :: "json \<Rightarrow> string list \<Rightarrow> json option" where
  "leafAt t p = (case valueAt t p of Some (JObj cs) \<Rightarrow> None | r \<Rightarrow> r)"

fun join_dot :: "string list \<Rightarrow> string" where
  "join_dot [] = []"
| "join_dot [k] = k"
| "join_dot (k # ks) = k @ ''.'' @ join_dot ks"

definition with_prefix :: "string \<Rightarrow> string \<Rightarrow> string" where
  "with_prefix pre k = (if pre \<noteq> [] then pre @ ''.'' @ k else k)"

fun comparable :: "string list \<Rightarrow> string list \<Rightarrow> bool" where
  "comparable [] q = True"
| "comparable p [] = True"
| "comparable (a # p) (b # q) = (a = b \<and> comparable p q)"

definition segment_ok :: "string \<Rightarrow> bool" where
  "segment_ok k = (k \<noteq> [] \<and> CHR ''.'' \<notin> set k)"

fun well_keyed :: "json \<Rightarrow> bool"
and well_keyed_props :: "(string \<times> json) list \<Rightarrow> bool"
where
  "well_keyed (JObj ps) = (distinct (map fst ps) \<and> well_keyed_props ps)"
| "well_keyed JNull = True"
| "well_keyed (JBool b) = True"
| "well_keyed (JNum n) = True"
| "well_keyed (JStr s) = True"
| "well_keyed (JArr xs) = True"
| "well_keyed_props [] = True"
| "well_keyed_props ((k, v) # ps) = (segment_ok k \<and> well_keyed v \<and> well_keyed_props ps)"

fun string_leaves :: "json \<Rightarrow> bool"
and string_leaves_props :: "(string \<times> json) list \<Rightarrow> bool"
where
  "string_leaves (JObj ps) = string_leaves_props ps"
| "string_leaves (JStr s) = True"
| "string_leaves JNull = False"
| "string_leaves (JBool b) = False"
| "string_leaves (JNum n) = False"
| "string_leaves (JArr xs) = False"
| "string_leaves_props [] = True"
| "string_leaves_props ((k, v) # ps) = (string_leaves v \<and> string_leaves_props ps)"

text \<open>
  The flattened keys of a tree together with their leaf values, where the leaf is a
  string: the recursion of \<^verbatim>\<open>getKeys\<close>, keeping the value beside the key. \<open>unflatten\<close>
  re-nests such a list: \<^verbatim>\<open>setNestedKey\<close> for each entry in turn, from the empty object,
  \<open>None\<close> where one of the calls throws. Neither is a function of the analyzer: they
  spell out the round trip that the spec states for \<^verbatim>\<open>getKeys\<close> and \<^verbatim>\<open>setNestedKey\<close>.
\<close>

fun getEntries :: "json \<Rightarrow> string \<Rightarrow> (string \<times> string) list"
and getEntries_loop :: "(string \<times> json) list \<Rightarrow> string \<Rightarrow> (string \<times> string) list"
where
  "getEntries (JObj ps) prefix = getEntries_loop ps prefix"
| "getEntries JNull prefix = []"
| "getEntries (JBool b) prefix = []"
| "getEntries (JNum n) prefix = []"
| "getEntries (JStr s) prefix = []"
| "getEntries (JArr xs) prefix = []"
| "getEntries_loop [] prefix = []"
| "getEntries_loop ((key, v) # ps) prefix =
     (let fullKey = (if prefix \<noteq> [] then prefix @ ''.'' @ key else key) in
      (case v of
         JObj cs \<Rightarrow> getEntries v fullKey
       | JStr s \<Rightarrow> [(fullKey, s)]
       | _ \<Rightarrow> []) @ getEntries_loop ps prefix)"

fun unflatten_from ::
  "(string \<times> json) list \<Rightarrow> (string \<times> string) list \<Rightarrow> (string \<times> json) list option" where
  "unflatten_from obj [] = Some obj"
| "unflatten_from obj ((k, v) # entries) =
     (case setNestedKey obj (split_dot k) v of
        None \<Rightarrow> None
      | Some obj' \<Rightarrow> unflatten_from obj' entries)"

definition unflatten :: "(string \<times> string) list \<Rightarrow> (string \<times> json) list option" where
  "unflatten entries = unflatten_from [] entries"

text \<open>The paths of the leaves of a tree.\<close>

definition leafPaths :: "json \<Rightarrow> string list set" where
  "leafPaths t = {p. leafAt t p \<noteq> None}"

section \<open>Locale store\<close>

text \<open>
  What the programs see of the outside: the locale files, the directories that exist, the
  lines the user types, and what is printed. A file is known by what reading and parsing
  it gives: \<^verbatim>\<open>readFile\<close> fails with \<^verbatim>\<open>ENOENT\<close>, or with another error, or
  \<^verbatim>\<open>JSON.parse\<close> throws on the text, or it returns a value. \<^verbatim>\<open>writeFile\<close> of
  \<^verbatim>\<open>JSON.stringify(data, null, 2)\<close> leaves a file that parses to \<^verbatim>\<open>data\<close> again; the
  record keeps every write in order, so that a file rewritten with its old content is
  told apart from a file left alone. Writes are taken to succeed. Of the console only
  the diagnostic of \<^verbatim>\<open>loadLocale\<close> is kept.
\<close>

datatype disk_file =
    NoEntry
  | ReadError string
  | Malformed string
  | Doc json

datatype message = LocaleError string string

record world =
  files :: "string \<Rightarrow> disk_file"
  accessible :: "string \<Rightarrow> bool"
  writes :: "(string \<times> json) list"
  console :: "message list"
  stdin :: "string list"

text \<open>The paths of \<^verbatim>\<open>CONFIG\<close> depend on the working directory; the locales are fixed.\<close>

record config =
  cfg_localesDir :: string
  cfg_alternativeLocalesPaths :: "string list"

definition defaultLocale :: string where
  "defaultLocale = ''en''"

definition otherLocales :: "string list" where
  "otherLocales = [''es'']"

definition localePath :: "string \<Rightarrow> string \<Rightarrow> string" where
  "localePath localesDir locale = localesDir @ ''/'' @ locale @ ''.json''"

fun firstAccessible :: "world \<Rightarrow> string list \<Rightarrow> string option" where
  "firstAccessible w [] = None"
| "firstAccessible w (p # ps) = (if accessible w p then Some p else firstAccessible w ps)"

definition findLocalesDirectory :: "config \<Rightarrow> world \<Rightarrow> string option" where
  "findLocalesDirectory cfg w =
     (if accessible w (cfg_localesDir cfg) then Some (cfg_localesDir cfg)
      else firstAccessible w (cfg_alternativeLocalesPaths cfg))"

text \<open>
  \<^verbatim>\<open>loadLocale(locale, localesDir)\<close> returns the parsed value or \<^verbatim>\<open>null\<close>. Both
  branches of the \<^verbatim>\<open>catch\<close> return \<^verbatim>\<open>null\<close>; the second prints first.
\<close>

definition loadLocale :: "string \<Rightarrow> string \<Rightarrow> world \<Rightarrow> json \<times> world" where
  "loadLocale locale localesDir w =
     (case files w (localePath localesDir locale) of
        Doc v \<Rightarrow> (v, w)
      | NoEntry \<Rightarrow> (JNull, w)
      | ReadError m \<Rightarrow> (JNull, w\<lparr>console := console w @ [LocaleError locale m]\<rparr>)
      | Malformed m \<Rightarrow> (JNull, w\<lparr>console := console w @ [LocaleError locale m]\<rparr>))"

definition writeFile :: "string \<Rightarrow> json \<Rightarrow> world \<Rightarrow> world" where
  "writeFile path data w =
     w\<lparr>files := (files w)(path := Doc data), writes := writes w @ [(path, data)]\<rparr>"

section \<open>Reconciliation engine\<close>

record KeyStatus =
  key :: string
  inCode :: bool
  inEN :: bool
  inES :: bool

record AnalysisResult =
  defaultLocaleKeys :: "string list"
  otherLocaleKeys :: "(string \<times> string list) list"
  usedKeys :: "string list"
  allLocaleKeys :: "string list"
  availableLocales :: "string list"
  keyStatuses :: "KeyStatus list"
  localesDir :: string

text \<open>\<^verbatim>\<open>new Set([...])\<close>: the elements of the list, each kept where it first occurs.\<close>

definition new_Set :: "string list \<Rightarrow> string list" where
  "new_Set xs = fold set_add xs []"

text \<open>
  \<^verbatim>\<open>keyStatuses.sort(compareFn)\<close>. The comparison is \<^verbatim>\<open>a.key.localeCompare(b.key)\<close>,
  a function of the JavaScript runtime and no code of the analyzer, so it is a parameter
  of the model. \<^verbatim>\<open>Array.prototype.sort\<close> is stable; for a consistent comparison its
  result is the one a stable insertion sort gives.
\<close>

fun insert_by :: "('a \<Rightarrow> 'a \<Rightarrow> int) \<Rightarrow> 'a \<Rightarrow> 'a list \<Rightarrow> 'a list" where
  "insert_by compareFn x [] = [x]"
| "insert_by compareFn x (y # ys) =
     (if compareFn x y \<le> 0 then x # y # ys else y # insert_by compareFn x ys)"

definition sort_by :: "('a \<Rightarrow> 'a \<Rightarrow> int) \<Rightarrow> 'a list \<Rightarrow> 'a list" where
  "sort_by compareFn xs = foldr (insert_by compareFn) xs []"

text \<open>The loop over \<^verbatim>\<open>CONFIG.otherLocales\<close>: the key sets and names of the locales loaded.\<close>

fun loadOthers :: "string list \<Rightarrow> string \<Rightarrow> world \<Rightarrow>
    (string \<times> string list) list \<times> string list \<times> world" where
  "loadOthers [] dir w = ([], [], w)"
| "loadOthers (locale # rest) dir w =
     (case loadLocale locale dir w of
        (data, w1) \<Rightarrow>
          (case loadOthers rest dir w1 of
             (keys, available, w2) \<Rightarrow>
               if truthy data then ((locale, getKeys data []) # keys, locale # available, w2)
               else (keys, available, w2)))"

text \<open>
  \<^verbatim>\<open>analyzeLocales()\<close>. \<open>scanned\<close> is the set \<^verbatim>\<open>scanSourceFiles\<close> returns; the scan reads
  source files only. The result is \<open>None\<close> where the function returns \<^verbatim>\<open>null\<close>.
\<close>

definition analyzeLocales ::
  "(string \<Rightarrow> string \<Rightarrow> int) \<Rightarrow> config \<Rightarrow> string list \<Rightarrow> world \<Rightarrow> AnalysisResult option \<times> world" where
  "analyzeLocales localeCompare cfg scanned w =
     (case findLocalesDirectory cfg w of
        None \<Rightarrow> (None, w)
      | Some dir \<Rightarrow>
          (case loadLocale defaultLocale dir w of
             (defaultLocaleData, w1) \<Rightarrow>
               if \<not> truthy defaultLocaleData then (None, w1)
               else
                 (case loadOthers otherLocales dir w1 of
                    (otherKeys, available, w2) \<Rightarrow>
                      let defaultKeys = getKeys defaultLocaleData [];
                          allKeys = new_Set (defaultKeys @ concat (map snd otherKeys));
                          allUniqueKeys = new_Set (allKeys @ scanned);
                          statuses =
                            map (\<lambda>k. \<lparr>key = k,
                                      inCode = (k \<in> set scanned),
                                      inEN = (k \<in> set defaultKeys),
                                      inES = (case map_of otherKeys ''es'' of
                                                Some ks \<Rightarrow> k \<in> set ks
                                              | None \<Rightarrow> False)\<rparr>)
                              allUniqueKeys
                      in (Some \<lparr>defaultLocaleKeys = defaultKeys,
                                otherLocaleKeys = otherKeys,
                                usedKeys = scanned,
                                allLocaleKeys = allKeys,
                                availableLocales = available,
                                keyStatuses =
                                  sort_by (\<lambda>a b. localeCompare (key a) (key b)) statuses,
                                localesDir = dir\<rparr>, w2))))"

section \<open>Interactive prompts\<close>

text \<open>
  A prompt takes the next line the user types. When the input has ended the question is
  never answered and the operation does not go on: the result is \<open>None\<close>.
  \<^verbatim>\<open>toLowerCase\<close> is written for ASCII text. Two functions of the JavaScript runtime are
  parameters of the model, as \<^verbatim>\<open>localeCompare\<close> is: \<^verbatim>\<open>String.prototype.trim\<close>, and the
  conversion of a string assigned to the \<^verbatim>\<open>length\<close> of an array, which gives the new
  length or, where the assignment throws \<^verbatim>\<open>RangeError\<close>, \<open>None\<close>.
\<close>

record runtime =
  rt_trim :: "string \<Rightarrow> string"
  rt_arrayLength :: "string \<Rightarrow> nat option"

definition toLowerChar :: "char \<Rightarrow> char" where
  "toLowerChar c =
     (case map_of (zip ''ABCDEFGHIJKLMNOPQRSTUVWXYZ'' ''abcdefghijklmnopqrstuvwxyz'') c of
        Some l \<Rightarrow> l
      | None \<Rightarrow> c)"

definition toLowerCase :: "string \<Rightarrow> string" where
  "toLowerCase s = map toLowerChar s"

definition is_space :: "char \<Rightarrow> bool" where
  "is_space c = (c \<in> set [CHR 0x09, CHR 0x0A, CHR 0x0B, CHR 0x0C, CHR 0x0D, CHR 0x20])"

text \<open>What \<^verbatim>\<open>trim\<close> does to ASCII text, and the length a string of decimal digits denotes.\<close>

definition ascii_trim :: "string \<Rightarrow> string" where
  "ascii_trim s = rev (dropWhile is_space (rev (dropWhile is_space s)))"

definition decimal_length :: "string \<Rightarrow> nat option" where
  "decimal_length s =
     (if s \<noteq> [] \<and> list_all is_digit s \<and>
         fold (\<lambda>c n. 10 * n + (of_char c - 48)) s (0::nat) < 4294967296
      then Some (fold (\<lambda>c n. 10 * n + (of_char c - 48)) s 0)
      else None)"

definition askConfirmation :: "world \<Rightarrow> bool option \<times> world" where
  "askConfirmation w =
     (case stdin w of
        [] \<Rightarrow> (None, w)
      | answer # rest \<Rightarrow>
          (Some (toLowerCase answer = ''y'' \<or> toLowerCase answer = ''yes''), w\<lparr>stdin := rest\<rparr>))"

definition askInput :: "runtime \<Rightarrow> world \<Rightarrow> string option \<times> world" where
  "askInput rt w =
     (case stdin w of
        [] \<Rightarrow> (None, w)
      | answer # rest \<Rightarrow> (Some (rt_trim rt answer), w\<lparr>stdin := rest\<rparr>))"

section \<open>Mutation operations\<close>

datatype outcome =
    Completed
  | NothingToDo
  | Cancelled
  | CouldNotLoad
  | InputEnded
  | Threw

text \<open>
  \<^verbatim>\<open>addMissingKeys\<close> casts what it loaded to \<^verbatim>\<open>Record<string, unknown>\<close> and hands it to
  \<^verbatim>\<open>setNestedKey\<close>, whatever it is. \<open>setNestedKey_cast\<close> is \<^verbatim>\<open>setNestedKey\<close> on any value
  that is truthy, with the value as \<^verbatim>\<open>JSON.stringify\<close> then writes it; \<open>None\<close> where the
  call throws.

  On an array a first segment that is an array index assigns that element, and elements
  left out before it are written as \<^verbatim>\<open>null\<close>; \<^verbatim>\<open>length\<close> as the only segment assigns the
  length, and as an earlier segment assigns \<^verbatim>\<open>{}\<close> to it, which throws \<^verbatim>\<open>RangeError\<close>;
  any other segment names a property of the array object, which \<^verbatim>\<open>JSON.stringify\<close> does
  not write, so that the document stays as it is. On a primitive every assignment
  throws \<^verbatim>\<open>TypeError\<close>, the analyzer being module code; only the accessor \<^verbatim>\<open>__proto__\<close>
  is read and assigned without one, and leads to the prototype of the primitive's
  wrapper. \<open>setNestedKey_primitive\<close> says whether the call returns. Reading a property of
  \<^verbatim>\<open>null\<close> throws.
\<close>

definition settable_index :: "string \<Rightarrow> nat option" where
  "settable_index k =
     (case array_index k of
        None \<Rightarrow> None
      | Some i \<Rightarrow> if i < 4294967295 then Some i else None)"

definition set_element :: "json list \<Rightarrow> nat \<Rightarrow> json \<Rightarrow> json list" where
  "set_element xs i v =
     (if i < length xs then xs[i := v] else xs @ replicate (i - length xs) JNull @ [v])"

definition set_length :: "json list \<Rightarrow> nat \<Rightarrow> json list" where
  "set_length xs n = (if n \<le> length xs then take n xs else xs @ replicate (n - length xs) JNull)"

fun setNestedKey_array :: "runtime \<Rightarrow> json list \<Rightarrow> string list \<Rightarrow> string \<Rightarrow> json list option" where
  "setNestedKey_array rt xs [] v = Some xs"
| "setNestedKey_array rt xs [k] v =
     (case settable_index k of
        Some i \<Rightarrow> Some (set_element xs i (JStr v))
      | None \<Rightarrow>
          if k = ''length'' then map_option (set_length xs) (rt_arrayLength rt v)
          else Some xs)"
| "setNestedKey_array rt xs (k # rest) v =
     (case settable_index k of
        Some i \<Rightarrow>
          map_option (\<lambda>child. set_element xs i (JObj child))
            (setNestedKey
               (if i < length xs then (case xs ! i of JObj cs \<Rightarrow> cs | _ \<Rightarrow> []) else [])
               rest v)
      | None \<Rightarrow>
          if k = ''length'' then None
          else if walkOutside OtherObject rest then Some xs
          else None)"

fun setNestedKey_primitive :: "place \<Rightarrow> string list \<Rightarrow> bool" where
  "setNestedKey_primitive wrapper [] = False"
| "setNestedKey_primitive wrapper [k] = (k = ''__proto__'')"
| "setNestedKey_primitive wrapper (k # rest) = (k = ''__proto__'' \<and> walkOutside wrapper rest)"

fun setNestedKey_cast :: "runtime \<Rightarrow> json \<Rightarrow> string list \<Rightarrow> string \<Rightarrow> json option" where
  "setNestedKey_cast rt (JObj ps) keyPath v = map_option JObj (setNestedKey ps keyPath v)"
| "setNestedKey_cast rt (JArr xs) keyPath v = map_option JArr (setNestedKey_array rt xs keyPath v)"
| "setNestedKey_cast rt JNull keyPath v = None"
| "setNestedKey_cast rt (JStr s) keyPath v =
     (if setNestedKey_primitive StringPrototype keyPath then Some (JStr s) else None)"
| "setNestedKey_cast rt primitive keyPath v =
     (if setNestedKey_primitive OtherObject keyPath then Some primitive else None)"

text \<open>
  One of the two blocks in the loop of \<^verbatim>\<open>addMissingKeys\<close>, which differ in the locale
  only: load the file (or start from \<^verbatim>\<open>{}\<close>), set the key, write the file. The flag
  returned is false where \<^verbatim>\<open>setNestedKey\<close> throws; the exception ends the operation,
  outcome \<open>Threw\<close>.
\<close>

definition addToLocale ::
  "runtime \<Rightarrow> string \<Rightarrow> string \<Rightarrow> string \<Rightarrow> string \<Rightarrow> world \<Rightarrow> bool \<times> world" where
  "addToLocale rt locale dir k translation w =
     (case loadLocale locale dir w of
        (loaded, w1) \<Rightarrow>
          (case setNestedKey_cast rt (if truthy loaded then loaded else JObj [])
                  (split_dot k) translation of
             Some data \<Rightarrow> (True, writeFile (localePath dir locale) data w1)
           | None \<Rightarrow> (False, w1)))"

fun addLoop :: "runtime \<Rightarrow> string \<Rightarrow> KeyStatus list \<Rightarrow> world \<Rightarrow> outcome \<times> world" where
  "addLoop rt dir [] w = (Completed, w)"
| "addLoop rt dir (status # rest) w =
     (case askInput rt w of
        (None, w1) \<Rightarrow> (InputEnded, w1)
      | (Some defaultValue, w1) \<Rightarrow>
          let translation = (if defaultValue \<noteq> [] then defaultValue
                             else ''['' @ key status @ '']'') in
          (case (if \<not> inEN status then addToLocale rt ''en'' dir (key status) translation w1
                 else (True, w1)) of
             (False, w2) \<Rightarrow> (Threw, w2)
           | (True, w2) \<Rightarrow>
               (case (if \<not> inES status then addToLocale rt ''es'' dir (key status) translation w2
                      else (True, w2)) of
                  (False, w3) \<Rightarrow> (Threw, w3)
                | (True, w3) \<Rightarrow> addLoop rt dir rest w3)))"

definition keysInCodeOnly :: "AnalysisResult \<Rightarrow> KeyStatus list" where
  "keysInCodeOnly results = filter (\<lambda>s. inCode s \<and> (\<not> inEN s \<or> \<not> inES s)) (keyStatuses results)"

definition addMissingKeys :: "runtime \<Rightarrow> AnalysisResult \<Rightarrow> world \<Rightarrow> outcome \<times> world" where
  "addMissingKeys rt results w =
     (if keysInCodeOnly results = [] then (NothingToDo, w)
      else
        (case askConfirmation w of
           (None, w1) \<Rightarrow> (InputEnded, w1)
         | (Some proceed, w1) \<Rightarrow>
             if \<not> proceed then (Cancelled, w1)
             else addLoop rt (localesDir results) (keysInCodeOnly results) w1))"

definition keysInLocaleOnly :: "AnalysisResult \<Rightarrow> string \<Rightarrow> KeyStatus list" where
  "keysInLocaleOnly results locale =
     filter (\<lambda>s. (if locale = ''en'' then inEN s else inES s) \<and> \<not> inCode s) (keyStatuses results)"

text \<open>The removal loop of \<^verbatim>\<open>deleteKeysFromLocale\<close>, with \<^verbatim>\<open>removedCount\<close>.\<close>

fun removeLoop :: "json \<Rightarrow> KeyStatus list \<Rightarrow> nat \<Rightarrow> nat \<times> json" where
  "removeLoop localeData [] removedCount = (removedCount, localeData)"
| "removeLoop localeData (status # rest) removedCount =
     (case removeKey localeData (split_dot (key status)) of
        (removed, localeData') \<Rightarrow>
          removeLoop localeData' rest (if removed then removedCount + 1 else removedCount))"

definition deleteKeysFromLocale :: "AnalysisResult \<Rightarrow> string \<Rightarrow> world \<Rightarrow> outcome \<times> world" where
  "deleteKeysFromLocale results locale w =
     (if keysInLocaleOnly results locale = [] then (NothingToDo, w)
      else
        (case askConfirmation w of
           (None, w1) \<Rightarrow> (InputEnded, w1)
         | (Some proceed, w1) \<Rightarrow>
             if \<not> proceed then (Cancelled, w1)
             else
               (case askConfirmation w1 of
                  (None, w2) \<Rightarrow> (InputEnded, w2)
                | (Some confirmDelete, w2) \<Rightarrow>
                    if \<not> confirmDelete then (Cancelled, w2)
                    else
                      (case loadLocale locale (localesDir results) w2 of
                         (localeData, w3) \<Rightarrow>
                           if \<not> truthy localeData then (CouldNotLoad, w3)
                           else
                             (case removeLoop localeData (keysInLocaleOnly results locale) 0 of
                                (removedCount, localeData') \<Rightarrow>
                                  (Completed,
                                   writeFile (localePath (localesDir results) locale)
                                     localeData' w3))))))"

section \<open>Runtime lookup\<close>

text \<open>
  The function \<^verbatim>\<open>t\<close> of \<^verbatim>\<open>useTranslate\<close>, here \<open>translate\<close>. The loop over the
  segments is \<open>t_loop\<close>; \<open>None\<close> is the early \<^verbatim>\<open>return key\<close>. \<^verbatim>\<open>k in value\<close> also holds
  for inherited properties and for \<^verbatim>\<open>length\<close> of an array. Such a property is a
  function, a number, \<^verbatim>\<open>null\<close> or a prototype object whose own properties are of the
  same kinds, so the walk never reaches a string through it and the result is the key,
  as for a segment that is absent. An array has its elements under the canonical
  decimal names of their indices.
\<close>

fun t_loop :: "json \<Rightarrow> string list \<Rightarrow> json option" where
  "t_loop v [] = Some v"
| "t_loop (JObj ps) (k # ks) =
     (case map_of ps k of None \<Rightarrow> None | Some c \<Rightarrow> t_loop c ks)"
| "t_loop (JArr xs) (k # ks) =
     (case array_index k of
        None \<Rightarrow> None
      | Some i \<Rightarrow> if i < length xs then t_loop (xs ! i) ks else None)"
| "t_loop v (k # ks) = None"

definition translate :: "json \<Rightarrow> string \<Rightarrow> string" where
  "translate dictionary k =
     (case t_loop dictionary (split_dot k) of
        None \<Rightarrow> k
      | Some (JStr s) \<Rightarrow> s
      | Some _ \<Rightarrow> k)"

text \<open>
  What the walk is meant to compute, as a relation: \<open>resolves d p v\<close> when following the
  segments \<open>p\<close> from \<open>d\<close>, each one an own property or an array element, ends at \<open>v\<close>.
\<close>

inductive resolves :: "json \<Rightarrow> string list \<Rightarrow> json \<Rightarrow> bool" where
  here: "resolves v [] v"
| property: "map_of ps k = Some c \<Longrightarrow> resolves c ks v \<Longrightarrow> resolves (JObj ps) (k # ks) v"
| element: "array_index k = Some i \<Longrightarrow> i < length xs \<Longrightarrow> resolves (xs ! i) ks v \<Longrightarrow>
            resolves (JArr xs) (k # ks) v"

section \<open>Example worlds\<close>

definition world_of :: "(string \<times> disk_file) list \<Rightarrow> string list \<Rightarrow> string list \<Rightarrow> world" where
  "world_of fs dirs input =
     \<lparr>files = (\<lambda>p. case map_of fs p of Some f \<Rightarrow> f | None \<Rightarrow> NoEntry),
      accessible = (\<lambda>p. p \<in> set dirs),
      writes = [],
      console = [],
      stdin = input\<rparr>"

definition example_config :: config where
  "example_config = \<lparr>cfg_localesDir = ''src/locales'', cfg_alternativeLocalesPaths = [''locales'']\<rparr>"

definition example_dictionary :: json where
  "example_dictionary =
     JObj [(''common'', JObj [(''greeting'', JStr ''Hello'')]), (''tags'', JArr [JStr ''new''])]"

section \<open>Comparisons for sorting\<close>

text \<open>
  A comparison function is consistent when the relation \<open>compare a b \<le> 0\<close> is total and
  transitive; \<^verbatim>\<open>localeCompare\<close> is.
\<close>

definition consistent :: "(string \<Rightarrow> string \<Rightarrow> int) \<Rightarrow> bool" where
  "consistent compare =
     ((\<forall>a b. compare a b \<le> 0 \<or> compare b a \<le> 0) \<and>
      (\<forall>a b c. compare a b \<le> 0 \<longrightarrow> compare b c \<le> 0 \<longrightarrow> compare a c \<le> 0))"

text \<open>
  \<^verbatim>\<open>localeCompare\<close> on words of ASCII letters, as the default collation of the runtime
  orders them: first by the letters with case ignored, then, for words equal up to
  case, lower case before upper case at the first difference. On other strings this
  function is only some consistent comparison.
\<close>

definition is_upper :: "char \<Rightarrow> bool" where
  "is_upper c = (CHR ''A'' \<le> c \<and> c \<le> CHR ''Z'')"

definition collation_key :: "string \<Rightarrow> string \<times> bool list" where
  "collation_key s = (toLowerCase s, map is_upper s)"

definition letters_localeCompare :: "string \<Rightarrow> string \<Rightarrow> int" where
  "letters_localeCompare a b =
     (if collation_key a < collation_key b then - 1
      else if collation_key b < collation_key a then 1
      else 0)"

text \<open>
  The keys that add-missing would select according to the spec: used in code and absent
  from the default locale or from one of the locales that were loaded.
\<close>

definition missing_per_spec :: "AnalysisResult \<Rightarrow> string list" where
  "missing_per_spec results =
     filter
       (\<lambda>k. k \<in> set (usedKeys results) \<and>
            \<not> (k \<in> set (defaultLocaleKeys results) \<and>
               list_all
                 (\<lambda>l. case map_of (otherLocaleKeys results) l of
                        Some ks \<Rightarrow> k \<in> set ks
                      | None \<Rightarrow> False)
                 (availableLocales results)))
       (map key (keyStatuses results))"

text \<open>The keys of a report and of the selection of add-missing, in order.\<close>

definition reportedKeys :: "AnalysisResult \<Rightarrow> string list" where
  "reportedKeys results = map key (keyStatuses results)"

definition selectedKeys :: "AnalysisResult \<Rightarrow> string list" where
  "selectedKeys results = map key (keysInCodeOnly results)"

definition world_unsorted :: world where
  "world_unsorted =
     world_of [(''src/locales/en.json'', Doc (JObj [(''B'', JStr ''2''), (''a'', JStr ''1'')]))]
       [''src/locales''] []"

definition world_en_only :: world where
  "world_en_only =
     world_of [(''src/locales/en.json'', Doc (JObj [(''a'', JStr ''1'')]))] [''src/locales''] []"

section \<open>What add-missing is expected to write\<close>

text \<open>
  For the selected keys in order and the answers typed after the confirmation: one
  value per key, the trimmed answer or the key in brackets when that is empty, and one
  addition of that value for the key to each locale whose flag says the key is missing,
  the default locale first. An addition is the path of the file, the key and the value.
\<close>

fun expectedWrites ::
  "runtime \<Rightarrow> string \<Rightarrow> KeyStatus list \<Rightarrow> string list \<Rightarrow> (string \<times> string \<times> string) list" where
  "expectedWrites rt dir [] answers = []"
| "expectedWrites rt dir (status # rest) [] = []"
| "expectedWrites rt dir (status # rest) (answer # answers) =
     (let translation = (if rt_trim rt answer \<noteq> [] then rt_trim rt answer
                         else ''['' @ key status @ '']'') in
      (if \<not> inEN status then [(localePath dir ''en'', key status, translation)] else []) @
      (if \<not> inES status then [(localePath dir ''es'', key status, translation)] else []) @
      expectedWrites rt dir rest answers)"

text \<open>A write of a document to a path carries a value for a key when the document has that
  string at the path of the key.\<close>

fun carries :: "string \<times> json \<Rightarrow> string \<times> string \<times> string \<Rightarrow> bool" where
  "carries (path, document) (path', k, translation) =
     (path = path' \<and> valueAt document (split_dot k) = Some (JStr translation))"

text \<open>
  What \<^verbatim>\<open>(await loadLocale(...)) || {}\<close> gives for a file, and the files after a list of
  writes. The writes \<open>ws\<close>, made in turn on the files \<open>fs\<close>, perform the additions \<open>es\<close>
  when there is one write for each addition, to the path of the addition, of the
  document that \<^verbatim>\<open>setNestedKey\<close> makes, for the key and the value, of what the file at
  the path then gives.
\<close>

definition loaded_or_empty :: "disk_file \<Rightarrow> json" where
  "loaded_or_empty f = (case f of Doc v \<Rightarrow> if truthy v then v else JObj [] | _ \<Rightarrow> JObj [])"

fun filesAfter :: "(string \<Rightarrow> disk_file) \<Rightarrow> (string \<times> json) list \<Rightarrow> string \<Rightarrow> disk_file" where
  "filesAfter fs [] = fs"
| "filesAfter fs ((path, document) # ws) = filesAfter (fs(path := Doc document)) ws"

fun performed ::
  "runtime \<Rightarrow> (string \<Rightarrow> disk_file) \<Rightarrow> (string \<times> json) list \<Rightarrow>
   (string \<times> string \<times> string) list \<Rightarrow> bool" where
  "performed rt fs [] [] = True"
| "performed rt fs ((path, document) # ws) ((path', k, translation) # es) =
     (path = path' \<and>
      setNestedKey_cast rt (loaded_or_empty (fs path)) (split_dot k) translation = Some document \<and>
      performed rt (fs(path := Doc document)) ws es)"
| "performed rt fs ws es = False"

text \<open>
  A locale file holds a record when what it loads to, unless it is replaced by \<^verbatim>\<open>{}\<close>,
  is a plain object: the declared type \<^verbatim>\<open>LocaleData\<close>. A key is free of the accessor
  when none of its segments is \<^verbatim>\<open>__proto__\<close>.
\<close>

definition holds_record :: "disk_file \<Rightarrow> bool" where
  "holds_record f = (case loaded_or_empty f of JObj ps \<Rightarrow> True | _ \<Rightarrow> False)"

definition accessor_free :: "string \<Rightarrow> bool" where
  "accessor_free k = (''__proto__'' \<notin> set (split_dot k))"

text \<open>
  A runtime for the examples. On ASCII text \<open>ascii_trim\<close> is \<^verbatim>\<open>String.prototype.trim\<close>,
  and on decimal digits \<open>decimal_length\<close> is the conversion of the runtime; on other
  strings they are only some functions.
\<close>

definition example_runtime :: runtime where
  "example_runtime = \<lparr>rt_trim = ascii_trim, rt_arrayLength = decimal_length\<rparr>"

definition example_files :: "(string \<times> disk_file) list" where
  "example_files =
     [(''src/locales/en.json'', Doc (JObj [(''a'', JStr ''1''), (''b'', JStr ''2'')])),
      (''src/locales/es.json'', Doc (JObj [(''a'', JStr ''uno'')])),
      (''src/locales/fr.json'', Doc (JObj [(''a'', JStr ''un'')]))]"

definition example_world :: "string list \<Rightarrow> world" where
  "example_world input = world_of example_files [''src/locales''] input"

text \<open>The analysis of the example files when the code uses the keys \<^verbatim>\<open>a\<close> and \<^verbatim>\<open>c\<close>.\<close>

definition example_results :: AnalysisResult where
  "example_results =
     \<lparr>defaultLocaleKeys = [''a'', ''b''], otherLocaleKeys = [(''es'', [''a''])],
      usedKeys = [''a'', ''c''], allLocaleKeys = [''a'', ''b''], availableLocales = [''es''],
      keyStatuses =
        [\<lparr>key = ''a'', inCode = True, inEN = True, inES = True\<rparr>,
         \<lparr>key = ''b'', inCode = False, inEN = True, inES = False\<rparr>,
         \<lparr>key = ''c'', inCode = True, inEN = False, inES = False\<rparr>],
      localesDir = ''src/locales''\<rparr>"

text \<open>An answer that \<^verbatim>\<open>askConfirmation\<close> takes for a yes.\<close>

definition affirmative :: "string \<Rightarrow> bool" where
  "affirmative answer = (toLowerCase answer = ''y'' \<or> toLowerCase answer = ''yes'')"

text \<open>A locale file whose only key contains the separator, and its analysis when the code
  uses no key.\<close>

definition world_dotted :: "string list \<Rightarrow> world" where
  "world_dotted input =
     world_of [(''src/locales/en.json'', Doc (JObj [(''a.b'', JStr ''1'')]))] [''src/locales''] input"

definition dotted_results :: AnalysisResult where
  "dotted_results =
     \<lparr>defaultLocaleKeys = [''a.b''], otherLocaleKeys = [], usedKeys = [],
      allLocaleKeys = [''a.b''], availableLocales = [],
      keyStatuses = [\<lparr>key = ''a.b'', inCode = False, inEN = True, inES = False\<rparr>],
      localesDir = ''src/locales''\<rparr>"

text \<open>A default locale file that holds an array, and its analysis when the code uses the
  key \<^verbatim>\<open>c\<close>.\<close>

definition world_array :: "string list \<Rightarrow> world" where
  "world_array input =
     world_of [(''src/locales/en.json'', Doc (JArr [JNum 1]))] [''src/locales''] input"

definition array_results :: AnalysisResult where
  "array_results =
     \<lparr>defaultLocaleKeys = [], otherLocaleKeys = [], usedKeys = [''c''],
      allLocaleKeys = [], availableLocales = [],
      keyStatuses = [\<lparr>key = ''c'', inCode = True, inEN = False, inES = False\<rparr>],
      localesDir = ''src/locales''\<rparr>"

section \<open>Key extractor: flatten of a root that is not an object\<close>

text \<open>
  Claim C10. \<^verbatim>\<open>getKeys\<close> applied to a root that is not a plain object (\<^verbatim>\<open>null\<close>, a
  boolean, a number, a string, an array) returns the empty set, whatever the prefix: no
  key is emitted for a top-level leaf. The function is total, so it does not throw.
\<close>

theorem getKeys_non_object_root:
  "getKeys JNull prefix = [] \<and> getKeys (JBool b) prefix = [] \<and> getKeys (JNum n) prefix = [] \<and>
   getKeys (JStr s) prefix = [] \<and> getKeys (JArr xs) prefix = []"
  by simp

section \<open>Key extractor: pruning of emptied ancestors\<close>

lemmas removeKey_induct = removeKey.induct[case_names last_segment empty_path descend]

lemma removeKey_prunes:
  "removeKey t p = (True, t') \<Longrightarrow> 0 < n \<Longrightarrow> n < length p \<Longrightarrow>
   valueAt t' (take n p) \<noteq> Some (JObj [])"
proof (induction t p arbitrary: t' n rule: removeKey_induct)
  case (descend ps k k' rest)
  from descend.prems(1) obtain child child' where
    child: "map_of ps k = Some child" "is_object child"
    and rec: "removeKey child (k' # rest) = (True, child')"
    and t': "t' = JObj (if child' = JObj [] then AList.delete k ps else AList.update k child' ps)"
    by (auto split: option.splits if_splits prod.splits)
  obtain m where n: "n = Suc m" using descend.prems(2) by (cases n) auto
  show ?case
  proof (cases "child' = JObj []")
    case True
    then show ?thesis by (simp add: t' n AList.delete_conv')
  next
    case False
    show ?thesis
    proof (cases m)
      case 0
      then show ?thesis using False by (simp add: t' n AList.update_conv')
    next
      case (Suc m')
      have "valueAt child' (take m (k' # rest)) \<noteq> Some (JObj [])"
        using descend.IH[of k child child' m] child rec descend.prems(3) Suc n by simp
      then show ?thesis using False by (simp add: t' n AList.update_conv')
    qed
  qed
qed (auto split: if_splits)

text \<open>
  Claim C5. When \<^verbatim>\<open>removeKey\<close> removes a path, no ancestor on that path is left behind
  as an empty object: every parent that the deletion empties is deleted in turn. In
  particular, removing \<^verbatim>\<open>a.b.c\<close> from \<^verbatim>\<open>{a: {b: {c: "x"}}}\<close> returns \<^verbatim>\<open>true\<close> and
  leaves \<^verbatim>\<open>{}\<close>.
\<close>

theorem removeKey_cascading_prune:
  "(removeKey t p = (True, t') \<longrightarrow>
      (\<forall>n. 0 < n \<and> n < length p \<longrightarrow> valueAt t' (take n p) \<noteq> Some (JObj []))) \<and>
   removeKey (JObj [(''a'', JObj [(''b'', JObj [(''c'', JStr ''x'')])])]) (split_dot ''a.b.c'')
     = (True, JObj [])"
proof -
  have "removeKey (JObj [(''a'', JObj [(''b'', JObj [(''c'', JStr ''x'')])])]) (split_dot ''a.b.c'')
          = (True, JObj [])"
    by (simp add: split_dot_def)
  then show ?thesis using removeKey_prunes by blast
qed

theorem removeKey_cascading_prune_witness:
  "removeKey (JObj [(''a'', JObj [(''b'', JObj [(''c'', JStr ''x'')]), (''d'', JStr ''y'')])])
       [''a'', ''b'', ''c'']
     = (True, JObj [(''a'', JObj [(''d'', JStr ''y'')])]) \<and>
   valueAt (JObj [(''a'', JObj [(''d'', JStr ''y'')])]) (take 1 [''a'', ''b'', ''c''])
     \<noteq> Some (JObj []) \<and>
   valueAt (JObj [(''a'', JObj [(''d'', JStr ''y'')])]) (take 2 [''a'', ''b'', ''c''])
     \<noteq> Some (JObj [])"
proof -
  have run: "removeKey (JObj [(''a'', JObj [(''b'', JObj [(''c'', JStr ''x'')]), (''d'', JStr ''y'')])])
                [''a'', ''b'', ''c'']
              = (True, JObj [(''a'', JObj [(''d'', JStr ''y'')])])"
    by simp
  from removeKey_cascading_prune[of
      "JObj [(''a'', JObj [(''b'', JObj [(''c'', JStr ''x'')]), (''d'', JStr ''y'')])]"
      "[''a'', ''b'', ''c'']" "JObj [(''a'', JObj [(''d'', JStr ''y'')])]"] run
  have "\<forall>n. 0 < n \<and> n < length [''a'', ''b'', ''c''] \<longrightarrow>
          valueAt (JObj [(''a'', JObj [(''d'', JStr ''y'')])]) (take n [''a'', ''b'', ''c''])
            \<noteq> Some (JObj [])"
    by blast
  from this[rule_format, of 1] this[rule_format, of 2] run show ?thesis by simp
qed

section \<open>Locale store: the two failures of loading\<close>

text \<open>
  Claim C1, as the spec states it: a caller of \<^verbatim>\<open>loadLocale\<close> can tell a missing file
  from one that does not parse. It cannot: for the same locale and directory, a world
  where the file is missing and a world where it is malformed give the same result,
  \<^verbatim>\<open>null\<close>.
\<close>

theorem loadLocale_same_result_counterexample:
  "files (world_of [] [] []) (localePath ''src/locales'' ''en'') = NoEntry \<and>
   files (world_of [(''src/locales/en.json'', Malformed ''Unexpected token'')] [] [])
     (localePath ''src/locales'' ''en'') = Malformed ''Unexpected token'' \<and>
   fst (loadLocale ''en'' ''src/locales'' (world_of [] [] [])) = JNull \<and>
   fst (loadLocale ''en'' ''src/locales''
          (world_of [(''src/locales/en.json'', Malformed ''Unexpected token'')] [] [])) = JNull"
  by (simp add: loadLocale_def world_of_def localePath_def)

text \<open>
  Claim C1, amended. \<^verbatim>\<open>loadLocale\<close> returns \<^verbatim>\<open>null\<close> for a missing file and for a file
  that cannot be read or parsed alike. The two cases differ on the console only: a
  missing file is passed over in silence, the other failure prints one error naming the
  locale and the message. A file that parses is returned as parsed, with nothing printed.
\<close>

theorem loadLocale_failures:
  "(files w (localePath dir l) = NoEntry \<longrightarrow> loadLocale l dir w = (JNull, w)) \<and>
   (files w (localePath dir l) = Malformed m \<longrightarrow>
      loadLocale l dir w = (JNull, w\<lparr>console := console w @ [LocaleError l m]\<rparr>)) \<and>
   (files w (localePath dir l) = ReadError m \<longrightarrow>
      loadLocale l dir w = (JNull, w\<lparr>console := console w @ [LocaleError l m]\<rparr>)) \<and>
   (files w (localePath dir l) = Doc v \<longrightarrow> loadLocale l dir w = (v, w))"
  by (simp add: loadLocale_def)

theorem loadLocale_failures_witness:
  "loadLocale ''en'' ''src/locales'' (world_of [] [] []) = (JNull, world_of [] [] []) \<and>
   loadLocale ''en'' ''src/locales''
       (world_of [(''src/locales/en.json'', Malformed ''Unexpected token'')] [] [])
     = (JNull, (world_of [(''src/locales/en.json'', Malformed ''Unexpected token'')] [] [])
                 \<lparr>console := [LocaleError ''en'' ''Unexpected token'']\<rparr>) \<and>
   loadLocale ''en'' ''src/locales''
       (world_of [(''src/locales/en.json'', ReadError ''EACCES'')] [] [])
     = (JNull, (world_of [(''src/locales/en.json'', ReadError ''EACCES'')] [] [])
                 \<lparr>console := [LocaleError ''en'' ''EACCES'']\<rparr>) \<and>
   loadLocale ''en'' ''src/locales''
       (world_of [(''src/locales/en.json'', Doc (JObj [(''a'', JStr ''1'')]))] [] [])
     = (JObj [(''a'', JStr ''1'')],
        world_of [(''src/locales/en.json'', Doc (JObj [(''a'', JStr ''1'')]))] [] [])"
  using loadLocale_failures[of "world_of [] [] []" "''src/locales''" "''en''"]
    loadLocale_failures[of "world_of [(''src/locales/en.json'', Malformed ''Unexpected token'')] [] []"
      "''src/locales''" "''en''" "''Unexpected token''"]
    loadLocale_failures[of "world_of [(''src/locales/en.json'', ReadError ''EACCES'')] [] []"
      "''src/locales''" "''en''" "''EACCES''"]
    loadLocale_failures[of "world_of [(''src/locales/en.json'', Doc (JObj [(''a'', JStr ''1'')]))] [] []"
      "''src/locales''" "''en''" _ "JObj [(''a'', JStr ''1'')]"]
  by (simp add: world_of_def localePath_def)

section \<open>Runtime lookup: fallback to the key\<close>

lemma t_loop_resolves: "t_loop d p = Some v \<Longrightarrow> resolves d p v"
proof (induction d p rule: t_loop.induct)
  case (1 v)
  then show ?case by (simp add: resolves.here)
next
  case (2 ps k ks)
  then show ?case by (auto split: option.splits intro: resolves.property)
next
  case (3 xs k ks)
  then show ?case by (auto split: option.splits if_splits intro: resolves.element)
qed simp_all

lemma resolves_t_loop: "resolves d p v \<Longrightarrow> t_loop d p = Some v"
  by (induction rule: resolves.induct) simp_all

lemma resolves_iff: "resolves d p v \<longleftrightarrow> t_loop d p = Some v"
  using t_loop_resolves resolves_t_loop by blast

text \<open>
  Claim C6, as the spec states it: the lookup never returns blank text for a missing
  translation. The fallback is the key, so for the empty key, which the example
  dictionary does not translate, the result is the empty string.
\<close>

theorem translate_empty_key_counterexample:
  "t_loop example_dictionary (split_dot []) = None \<and> translate example_dictionary [] = []"
  by (simp add: translate_def split_dot_def example_dictionary_def)

text \<open>
  Claim C6, amended. \<open>translate\<close> returns the string that the segments of the key lead
  to in the dictionary. When the segments lead to no string (a segment is missing, or
  the value reached is not a string) it returns the key itself, unchanged; so for a
  missing translation the result is blank only if the key is. The function is total:
  no input makes it throw.
\<close>

theorem translate_fallback:
  "(resolves dictionary (split_dot k) (JStr s) \<longrightarrow> translate dictionary k = s) \<and>
   ((\<forall>s'. \<not> resolves dictionary (split_dot k) (JStr s')) \<longrightarrow> translate dictionary k = k) \<and>
   ((\<forall>s'. \<not> resolves dictionary (split_dot k) (JStr s')) \<longrightarrow> k \<noteq> [] \<longrightarrow> translate dictionary k \<noteq> [])"
proof -
  have found: "translate dictionary k = s" if "resolves dictionary (split_dot k) (JStr s)"
    using that by (simp add: translate_def resolves_iff)
  have missing: "translate dictionary k = k" if "\<forall>s'. \<not> resolves dictionary (split_dot k) (JStr s')"
  proof (cases "t_loop dictionary (split_dot k)")
    case None
    then show ?thesis by (simp add: translate_def)
  next
    case (Some v)
    with that have "\<forall>s'. v \<noteq> JStr s'" by (simp add: resolves_iff)
    with Some show ?thesis by (cases v) (simp_all add: translate_def)
  qed
  from found missing show ?thesis by simp
qed

theorem translate_fallback_witness:
  "translate example_dictionary ''common.greeting'' = ''Hello'' \<and>
   translate example_dictionary ''tags.0'' = ''new'' \<and>
   translate example_dictionary ''common.farewell'' = ''common.farewell'' \<and>
   translate example_dictionary ''common'' = ''common'' \<and>
   translate example_dictionary ''tags.1'' \<noteq> []"
proof -
  have r1: "resolves example_dictionary (split_dot ''common.greeting'') (JStr ''Hello'')"
    by (simp add: resolves_iff example_dictionary_def split_dot_def)
  have r2: "resolves example_dictionary (split_dot ''tags.0'') (JStr ''new'')"
    by (simp add: resolves_iff example_dictionary_def split_dot_def array_index_def is_digit_def)
  have r3: "\<forall>s'. \<not> resolves example_dictionary (split_dot ''common.farewell'') (JStr s')"
    by (simp add: resolves_iff example_dictionary_def split_dot_def)
  have r4: "\<forall>s'. \<not> resolves example_dictionary (split_dot ''common'') (JStr s')"
    by (simp add: resolves_iff example_dictionary_def split_dot_def)
  have r5: "\<forall>s'. \<not> resolves example_dictionary (split_dot ''tags.1'') (JStr s')"
    by (simp add: resolves_iff example_dictionary_def split_dot_def array_index_def is_digit_def)
  show ?thesis
    using translate_fallback[of example_dictionary "''common.greeting''" "''Hello''"] r1
      translate_fallback[of example_dictionary "''tags.0''" "''new''"] r2
      translate_fallback[of example_dictionary "''common.farewell''"] r3
      translate_fallback[of example_dictionary "''common''"] r4
      translate_fallback[of example_dictionary "''tags.1''"] r5
    by blast
qed

section \<open>Reconciliation engine: order of the report\<close>

lemma set_fold_set_add: "set (fold set_add xs acc) = set xs \<union> set acc"
  by (induction xs arbitrary: acc) (auto simp: set_add_def)

lemma distinct_fold_set_add: "distinct acc \<Longrightarrow> distinct (fold set_add xs acc)"
  by (induction xs arbitrary: acc) (auto simp: set_add_def)

lemma set_new_Set: "set (new_Set xs) = set xs"
  by (simp add: new_Set_def set_fold_set_add)

lemma distinct_new_Set: "distinct (new_Set xs)"
  by (simp add: new_Set_def distinct_fold_set_add)

lemma set_insert_by: "set (insert_by c x ys) = insert x (set ys)"
  by (induction ys) auto

lemma set_sort_by: "set (sort_by c xs) = set xs"
  by (induction xs) (auto simp: sort_by_def set_insert_by)

lemma distinct_map_insert_by:
  "distinct (map f (insert_by c x ys)) = (f x \<notin> f ` set ys \<and> distinct (map f ys))"
  by (induction ys) (auto simp: set_insert_by)

lemma distinct_map_sort_by: "distinct (map f (sort_by c xs)) = distinct (map f xs)"
  by (induction xs) (auto simp: sort_by_def distinct_map_insert_by set_sort_by[unfolded sort_by_def])

lemma sorted_insert_by:
  assumes total: "\<And>a b. c a b \<le> 0 \<or> c b a \<le> 0"
    and trans: "\<And>a b d. c a b \<le> 0 \<Longrightarrow> c b d \<le> 0 \<Longrightarrow> c a d \<le> (0::int)"
    and sorted: "sorted_wrt (\<lambda>a b. c a b \<le> 0) ys"
  shows "sorted_wrt (\<lambda>a b. c a b \<le> 0) (insert_by c x ys)"
  using sorted
proof (induction ys)
  case Nil
  then show ?case by simp
next
  case (Cons y ys)
  show ?case
  proof (cases "c x y \<le> 0")
    case True
    then show ?thesis using Cons.prems trans by auto
  next
    case False
    then have "c y x \<le> 0" using total by blast
    then show ?thesis using False Cons by (auto simp: set_insert_by)
  qed
qed

lemma sorted_sort_by:
  assumes "\<And>a b. c a b \<le> 0 \<or> c b a \<le> 0"
    and "\<And>a b d. c a b \<le> 0 \<Longrightarrow> c b d \<le> 0 \<Longrightarrow> c a d \<le> (0::int)"
  shows "sorted_wrt (\<lambda>a b. c a b \<le> 0) (sort_by c xs)"
proof (induction xs)
  case Nil
  then show ?case by (simp add: sort_by_def)
next
  case (Cons x xs)
  have "sorted_wrt (\<lambda>a b. c a b \<le> 0) (insert_by c x (sort_by c xs))"
    using assms Cons by (rule sorted_insert_by)
  then show ?case by (simp add: sort_by_def)
qed

lemma loadLocale_frame:
  "loadLocale l d w = (v, w') \<Longrightarrow>
   files w' = files w \<and> writes w' = writes w \<and> stdin w' = stdin w \<and> accessible w' = accessible w"
  by (auto simp: loadLocale_def split: disk_file.splits)

lemma loadLocale_value:
  "loadLocale l d w = (v, w') \<Longrightarrow>
   v = (case files w (localePath d l) of Doc x \<Rightarrow> x | _ \<Rightarrow> JNull)"
  by (auto simp: loadLocale_def split: disk_file.splits)

text \<open>What a successful analysis returns, in terms of the two files as loaded.\<close>

lemma analyzeLocales_Some:
  assumes "analyzeLocales cmp cfg scanned w = (Some r, w')"
  shows "\<exists>dir en es.
    findLocalesDirectory cfg w = Some dir \<and> localesDir r = dir \<and>
    fst (loadLocale ''en'' dir w) = en \<and> truthy en \<and>
    fst (loadLocale ''es'' dir w) = es \<and>
    defaultLocaleKeys r = getKeys en [] \<and>
    otherLocaleKeys r = (if truthy es then [(''es'', getKeys es [])] else []) \<and>
    availableLocales r = (if truthy es then [''es''] else []) \<and>
    usedKeys r = scanned \<and>
    keyStatuses r =
      sort_by (\<lambda>a b. cmp (key a) (key b))
        (map (\<lambda>k. \<lparr>key = k, inCode = (k \<in> set scanned), inEN = (k \<in> set (getKeys en [])),
                    inES = (truthy es \<and> k \<in> set (getKeys es []))\<rparr>)
           (new_Set (new_Set (getKeys en [] @ (if truthy es then getKeys es [] else [])) @ scanned))) \<and>
    files w' = files w \<and> writes w' = writes w \<and> stdin w' = stdin w"
proof -
  obtain dir where dir: "findLocalesDirectory cfg w = Some dir"
    using assms by (auto simp: analyzeLocales_def split: option.splits)
  obtain en w1 where en: "loadLocale ''en'' dir w = (en, w1)" by (cases "loadLocale ''en'' dir w")
  obtain es w2 where es: "loadLocale ''es'' dir w1 = (es, w2)" by (cases "loadLocale ''es'' dir w1")
  have w1: "files w1 = files w" "writes w1 = writes w" "stdin w1 = stdin w"
    using loadLocale_frame[OF en] by simp_all
  have w2: "files w2 = files w1" "writes w2 = writes w1" "stdin w2 = stdin w1"
    using loadLocale_frame[OF es] by simp_all
  have es': "fst (loadLocale ''es'' dir w) = es"
    using loadLocale_value[OF es] w1 by (simp add: loadLocale_def split: disk_file.splits)
  have t: "truthy en" using assms dir en by (auto simp: analyzeLocales_def defaultLocale_def split: if_splits)
  show ?thesis
    using assms dir en es t w1 w2 es'
    by (auto simp: analyzeLocales_def defaultLocale_def otherLocales_def Let_def split: if_splits)
qed


lemma consistent_letters_localeCompare: "consistent letters_localeCompare"
  unfolding consistent_def letters_localeCompare_def
  by (auto split: if_splits)

lemmas eval_defs = analyzeLocales_def findLocalesDirectory_def example_config_def loadLocale_def
  localePath_def world_of_def defaultLocale_def otherLocales_def new_Set_def set_add_def
  sort_by_def Let_def

text \<open>
  Claim C2, as the spec states it: adjacent entries of \<open>keyStatuses\<close> have strictly
  increasing keys in the case-sensitive order of the character codes. The analyzer sorts
  with \<^verbatim>\<open>localeCompare\<close>, which puts \<^verbatim>\<open>a\<close> before \<^verbatim>\<open>B\<close>; in the order of the codes
  \<^verbatim>\<open>B\<close> comes first.
\<close>

theorem keyStatuses_not_code_point_sorted_counterexample:
  "map_option reportedKeys (fst (analyzeLocales letters_localeCompare example_config [] world_unsorted))
     = Some [''a'', ''B''] \<and>
   \<not> (''a'' < ''B'')"
  by (simp add: eval_defs world_unsorted_def reportedKeys_def letters_localeCompare_def collation_key_def
      toLowerCase_def toLowerChar_def is_upper_def)

text \<open>
  Claim C2, amended. For every analysis result the report is sorted by key in ascending
  order of the comparison \<^verbatim>\<open>localeCompare\<close> of the runtime, whatever consistent comparison
  that is: every earlier entry compares less than or equal to every later one, and no
  key occurs twice.
\<close>

theorem keyStatuses_sorted:
  assumes "consistent localeCompare"
    and "analyzeLocales localeCompare cfg scanned w = (Some results, w')"
  shows "sorted_wrt (\<lambda>a b. localeCompare (key a) (key b) \<le> 0) (keyStatuses results) \<and>
         distinct (map key (keyStatuses results))"
proof -
  let ?c = "\<lambda>a b. localeCompare (key a) (key b)"
  from analyzeLocales_Some[OF assms(2)] obtain ks :: "string list" and mk :: "string \<Rightarrow> KeyStatus" where
    st: "keyStatuses results = sort_by ?c (map mk (new_Set ks))"
    and mk: "\<And>k. key (mk k) = k"
    by (metis (no_types, lifting) KeyStatus.select_convs(1))
  have total: "\<And>a b. ?c a b \<le> 0 \<or> ?c b a \<le> 0"
    using assms(1) unfolding consistent_def by blast
  have trans: "\<And>a b d. ?c a b \<le> 0 \<Longrightarrow> ?c b d \<le> 0 \<Longrightarrow> ?c a d \<le> 0"
    using assms(1) unfolding consistent_def by blast
  have "sorted_wrt (\<lambda>a b. ?c a b \<le> 0) (sort_by ?c (map mk (new_Set ks)))"
    using total trans by (rule sorted_sort_by)
  moreover have "map key (map mk (new_Set ks)) = new_Set ks"
    by (simp add: mk comp_def)
  then have "distinct (map key (sort_by ?c (map mk (new_Set ks))))"
    by (simp add: distinct_map_sort_by distinct_new_Set)
  ultimately show ?thesis by (simp add: st)
qed

theorem keyStatuses_sorted_witness:
  "consistent letters_localeCompare \<and>
   analyzeLocales letters_localeCompare example_config [''c''] world_unsorted
     = (Some \<lparr>defaultLocaleKeys = [''B'', ''a''], otherLocaleKeys = [], usedKeys = [''c''],
               allLocaleKeys = [''B'', ''a''], availableLocales = [],
               keyStatuses =
                 [\<lparr>key = ''a'', inCode = False, inEN = True, inES = False\<rparr>,
                  \<lparr>key = ''B'', inCode = False, inEN = True, inES = False\<rparr>,
                  \<lparr>key = ''c'', inCode = True, inEN = False, inES = False\<rparr>],
               localesDir = ''src/locales''\<rparr>, world_unsorted) \<and>
   sorted_wrt (\<lambda>a b. letters_localeCompare (key a) (key b) \<le> 0)
     [\<lparr>key = ''a'', inCode = False, inEN = True, inES = False\<rparr>,
      \<lparr>key = ''B'', inCode = False, inEN = True, inES = False\<rparr>,
      \<lparr>key = ''c'', inCode = True, inEN = False, inES = False\<rparr>] \<and>
   distinct [''a'', ''B'', ''c'']"
proof -
  have run: "analyzeLocales letters_localeCompare example_config [''c''] world_unsorted
     = (Some \<lparr>defaultLocaleKeys = [''B'', ''a''], otherLocaleKeys = [], usedKeys = [''c''],
               allLocaleKeys = [''B'', ''a''], availableLocales = [],
               keyStatuses =
                 [\<lparr>key = ''a'', inCode = False, inEN = True, inES = False\<rparr>,
                  \<lparr>key = ''B'', inCode = False, inEN = True, inES = False\<rparr>,
                  \<lparr>key = ''c'', inCode = True, inEN = False, inES = False\<rparr>],
               localesDir = ''src/locales''\<rparr>, world_unsorted)"
    by (simp add: eval_defs world_unsorted_def letters_localeCompare_def collation_key_def
        toLowerCase_def toLowerChar_def is_upper_def)
  from keyStatuses_sorted[OF consistent_letters_localeCompare run] run
    consistent_letters_localeCompare
  show ?thesis by simp
qed


section \<open>Reconciliation engine: the keys add-missing selects\<close>

text \<open>
  Claim C3, as the spec states it: a secondary locale that was not loaded is left out of
  the conjunction. With \<^verbatim>\<open>en.json\<close> holding the only used key and no \<^verbatim>\<open>es.json\<close>, no
  locale is available besides the default, so the set of the spec is empty; the
  analyzer selects the key all the same.
\<close>

theorem addMissing_selects_when_es_absent_counterexample:
  "map_option availableLocales
     (fst (analyzeLocales letters_localeCompare example_config [''a''] world_en_only)) = Some [] \<and>
   map_option selectedKeys
     (fst (analyzeLocales letters_localeCompare example_config [''a''] world_en_only)) = Some [''a''] \<and>
   map_option missing_per_spec
     (fst (analyzeLocales letters_localeCompare example_config [''a''] world_en_only)) = Some []"
  by (simp add: eval_defs world_en_only_def selectedKeys_def keysInCodeOnly_def missing_per_spec_def)

text \<open>
  Claim C3, amended. The keys add-missing selects are exactly the keys used in code that
  are not in both locales, where a secondary locale that was not loaded counts as
  holding no key: \<^verbatim>\<open>inCode && (!inEN || !inES)\<close> with \<^verbatim>\<open>inES\<close> false for every key
  then. So when \<^verbatim>\<open>es.json\<close> is absent or does not parse, every key used in code is
  selected.
\<close>

theorem addMissing_selection:
  assumes "analyzeLocales localeCompare cfg scanned w = (Some results, w')"
  shows "\<exists>dir en es.
           findLocalesDirectory cfg w = Some dir \<and>
           en = fst (loadLocale ''en'' dir w) \<and> es = fst (loadLocale ''es'' dir w) \<and>
           set (selectedKeys results) =
             {k \<in> set scanned. \<not> (k \<in> set (getKeys en []) \<and> truthy es \<and> k \<in> set (getKeys es []))} \<and>
           (\<not> truthy es \<longrightarrow> set (selectedKeys results) = set scanned)"
proof -
  from analyzeLocales_Some[OF assms] obtain dir en es where
    dir: "findLocalesDirectory cfg w = Some dir"
    and en: "fst (loadLocale ''en'' dir w) = en"
    and es: "fst (loadLocale ''es'' dir w) = es"
    and st: "keyStatuses results =
      sort_by (\<lambda>a b. localeCompare (key a) (key b))
        (map (\<lambda>k. \<lparr>key = k, inCode = (k \<in> set scanned), inEN = (k \<in> set (getKeys en [])),
                    inES = (truthy es \<and> k \<in> set (getKeys es []))\<rparr>)
           (new_Set (new_Set (getKeys en [] @ (if truthy es then getKeys es [] else [])) @ scanned)))"
    by blast
  have sel: "set (selectedKeys results) =
      {k \<in> set scanned. \<not> (k \<in> set (getKeys en []) \<and> truthy es \<and> k \<in> set (getKeys es []))}"
  proof -
    let ?mk = "\<lambda>k. \<lparr>key = k, inCode = (k \<in> set scanned), inEN = (k \<in> set (getKeys en [])),
                    inES = (truthy es \<and> k \<in> set (getKeys es []))\<rparr>"
    let ?ks = "new_Set (new_Set (getKeys en [] @ (if truthy es then getKeys es [] else [])) @ scanned)"
    let ?P = "\<lambda>s. inCode s \<and> (\<not> inEN s \<or> \<not> inES s)"
    have "set (selectedKeys results) = key ` {s \<in> ?mk ` set ?ks. ?P s}"
      unfolding selectedKeys_def keysInCodeOnly_def st by (simp add: set_sort_by)
    also have "\<dots> = {k \<in> set ?ks. ?P (?mk k)}"
      by force
    also have "\<dots> = {k \<in> set scanned. \<not> (k \<in> set (getKeys en []) \<and> truthy es \<and> k \<in> set (getKeys es []))}"
      by (auto simp: set_new_Set)
    finally show ?thesis .
  qed
  then have "\<not> truthy es \<longrightarrow> set (selectedKeys results) = set scanned" by auto
  with sel dir en es show ?thesis by blast
qed

theorem addMissing_selection_witness:
  "analyzeLocales letters_localeCompare example_config [''a'', ''b''] world_en_only
     = (Some \<lparr>defaultLocaleKeys = [''a''], otherLocaleKeys = [], usedKeys = [''a'', ''b''],
               allLocaleKeys = [''a''], availableLocales = [],
               keyStatuses =
                 [\<lparr>key = ''a'', inCode = True, inEN = True, inES = False\<rparr>,
                  \<lparr>key = ''b'', inCode = True, inEN = False, inES = False\<rparr>],
               localesDir = ''src/locales''\<rparr>, world_en_only) \<and>
   set (selectedKeys
          \<lparr>defaultLocaleKeys = [''a''], otherLocaleKeys = [], usedKeys = [''a'', ''b''],
           allLocaleKeys = [''a''], availableLocales = [],
           keyStatuses =
             [\<lparr>key = ''a'', inCode = True, inEN = True, inES = False\<rparr>,
              \<lparr>key = ''b'', inCode = True, inEN = False, inES = False\<rparr>],
           localesDir = ''src/locales''\<rparr>) = set [''a'', ''b'']"
proof -
  have run: "analyzeLocales letters_localeCompare example_config [''a'', ''b''] world_en_only
     = (Some \<lparr>defaultLocaleKeys = [''a''], otherLocaleKeys = [], usedKeys = [''a'', ''b''],
               allLocaleKeys = [''a''], availableLocales = [],
               keyStatuses =
                 [\<lparr>key = ''a'', inCode = True, inEN = True, inES = False\<rparr>,
                  \<lparr>key = ''b'', inCode = True, inEN = False, inES = False\<rparr>],
               localesDir = ''src/locales''\<rparr>, world_en_only)"
    by (simp add: eval_defs world_en_only_def letters_localeCompare_def collation_key_def
        toLowerCase_def toLowerChar_def is_upper_def)
  have dir: "findLocalesDirectory example_config world_en_only = Some ''src/locales''"
    by (simp add: eval_defs world_en_only_def)
  have es: "\<not> truthy (fst (loadLocale ''es'' ''src/locales'' world_en_only))"
    by (simp add: eval_defs world_en_only_def)
  from addMissing_selection[OF run] dir es run show ?thesis by auto
qed

section \<open>Mutation operations: what is written, and where\<close>

lemma split_on_nonempty: "split_on d s \<noteq> []"
  by (induction s) (auto split: list.splits)

lemma split_dot_nonempty: "split_dot s \<noteq> []"
  by (simp add: split_dot_def split_on_nonempty)

text \<open>Along a path without the accessor \<^verbatim>\<open>setNestedKey\<close> returns, and the value is then at
  the path.\<close>

lemma valueAt_setNestedKey:
  "p \<noteq> [] \<Longrightarrow> ''__proto__'' \<notin> set p \<Longrightarrow>
   \<exists>obj'. setNestedKey obj p v = Some obj' \<and> valueAt (JObj obj') p = Some (JStr v)"
  by (induction obj p v rule: setNestedKey.induct)
     (auto simp: AList.update_conv' inherited_accessor_def)

lemma askInput_frame:
  "askInput rt w = (r, w') \<Longrightarrow> files w' = files w \<and> writes w' = writes w"
  by (auto simp: askInput_def split: list.splits)

lemma askConfirmation_frame:
  "askConfirmation w = (r, w') \<Longrightarrow> files w' = files w \<and> writes w' = writes w"
  by (auto simp: askConfirmation_def split: list.splits)

lemma addToLocale_effect:
  assumes "addToLocale rt l dir k tr w = (ok, w')"
  shows "stdin w' = stdin w \<and>
         (if ok then
            \<exists>d. setNestedKey_cast rt (loaded_or_empty (files w (localePath dir l))) (split_dot k) tr
                   = Some d \<and>
                 writes w' = writes w @ [(localePath dir l, d)] \<and>
                 files w' = (files w)(localePath dir l := Doc d)
          else setNestedKey_cast rt (loaded_or_empty (files w (localePath dir l))) (split_dot k) tr
                 = None \<and>
               writes w' = writes w \<and> files w' = files w)"
proof -
  obtain loaded w1 where ld: "loadLocale l dir w = (loaded, w1)" by (cases "loadLocale l dir w")
  note fr = loadLocale_frame[OF ld]
  have root: "(if truthy loaded then loaded else JObj []) = loaded_or_empty (files w (localePath dir l))"
    using loadLocale_value[OF ld] by (auto simp: loaded_or_empty_def split: disk_file.splits)
  show ?thesis
  proof (cases "setNestedKey_cast rt (loaded_or_empty (files w (localePath dir l))) (split_dot k) tr")
    case None
    then show ?thesis using assms ld fr root by (auto simp: addToLocale_def)
  next
    case (Some d)
    then show ?thesis using assms ld fr root by (auto simp: addToLocale_def writeFile_def)
  qed
qed

lemma filesAfter_append: "filesAfter fs (a @ b) = filesAfter (filesAfter fs a) b"
  by (induction a arbitrary: fs) auto

lemma filesAfter_frame: "p \<notin> fst ` set ws \<Longrightarrow> filesAfter fs ws p = fs p"
  by (induction ws arbitrary: fs) auto

lemma performed_append:
  "performed rt fs a ea \<Longrightarrow> performed rt (filesAfter fs a) b eb \<Longrightarrow>
   performed rt fs (a @ b) (ea @ eb)"
  by (induction rt fs a ea rule: performed.induct) auto

text \<open>
  The loop of add-missing: its writes perform a first part of the expected additions,
  all of them when it completes; when it stops on an exception, the next addition is
  the one on which \<^verbatim>\<open>setNestedKey\<close> throws.
\<close>

lemma addLoop_writes:
  "addLoop rt dir ks w = (out, w') \<Longrightarrow>
   \<exists>new matched remaining.
     writes w' = writes w @ new \<and>
     expectedWrites rt dir ks (stdin w) = matched @ remaining \<and>
     performed rt (files w) new matched \<and>
     files w' = filesAfter (files w) new \<and>
     (out = Completed \<longrightarrow> remaining = []) \<and>
     (out = Threw \<longrightarrow>
        (\<exists>p k tr rest. remaining = (p, k, tr) # rest \<and>
           setNestedKey_cast rt (loaded_or_empty (files w' p)) (split_dot k) tr = None))"
proof (induction ks arbitrary: w out w')
  case Nil
  then show ?case by simp
next
  case (Cons status rest)
  show ?case
  proof (cases "stdin w")
    case Nil
    then show ?thesis using Cons.prems by (auto simp: askInput_def)
  next
    case (Cons answer answers)
    define tr where "tr = (if rt_trim rt answer \<noteq> [] then rt_trim rt answer else ''['' @ key status @ '']'')"
    define w1 where "w1 = w\<lparr>stdin := answers\<rparr>"
    let ?en = "localePath dir ''en''"
    let ?es = "localePath dir ''es''"
    let ?cast = "\<lambda>fs p. setNestedKey_cast rt (loaded_or_empty (fs p)) (split_dot (key status)) tr"
    have ask: "askInput rt w = (Some (rt_trim rt answer), w1)"
      by (simp add: askInput_def Cons w1_def)
    obtain ok1 w2 where en: "(if \<not> inEN status then addToLocale rt ''en'' dir (key status) tr w1 else (True, w1)) = (ok1, w2)"
      by (cases "if \<not> inEN status then addToLocale rt ''en'' dir (key status) tr w1 else (True, w1)")
    obtain ok2 w3 where es: "(if \<not> inES status then addToLocale rt ''es'' dir (key status) tr w2 else (True, w2)) = (ok2, w3)"
      by (cases "if \<not> inES status then addToLocale rt ''es'' dir (key status) tr w2 else (True, w2)")
    let ?enx = "if \<not> inEN status then [(?en, key status, tr)] else []"
    let ?esx = "if \<not> inES status then [(?es, key status, tr)] else []"
    have exp: "expectedWrites rt dir (status # rest) (stdin w) = ?enx @ ?esx @ expectedWrites rt dir rest answers"
      by (simp add: Cons tr_def Let_def)
    have en_eff: "stdin w2 = answers \<and>
        (if ok1 then \<exists>n1. writes w2 = writes w @ n1 \<and> performed rt (files w) n1 ?enx \<and>
                       files w2 = filesAfter (files w) n1
         else \<not> inEN status \<and> ?cast (files w) ?en = None \<and> writes w2 = writes w \<and> files w2 = files w)"
    proof (cases "inEN status")
      case True
      then show ?thesis using en by (auto simp: w1_def)
    next
      case False
      then have a: "addToLocale rt ''en'' dir (key status) tr w1 = (ok1, w2)" using en by simp
      show ?thesis
      proof (cases ok1)
        case True
        with addToLocale_effect[OF a] obtain d where d: "?cast (files w) ?en = Some d"
          "writes w2 = writes w @ [(?en, d)]" "files w2 = (files w)(?en := Doc d)" "stdin w2 = answers"
          by (auto simp: w1_def)
        then have "writes w2 = writes w @ [(?en, d)] \<and> performed rt (files w) [(?en, d)] ?enx \<and>
            files w2 = filesAfter (files w) [(?en, d)]"
          using False by simp
        then have "\<exists>n1. writes w2 = writes w @ n1 \<and> performed rt (files w) n1 ?enx \<and>
            files w2 = filesAfter (files w) n1"
          by (rule exI)
        then show ?thesis using True d(4) by simp
      next
        case ok: False
        with addToLocale_effect[OF a] False show ?thesis by (auto simp: w1_def)
      qed
    qed
    have es_eff: "stdin w3 = stdin w2 \<and>
        (if ok2 then \<exists>n2. writes w3 = writes w2 @ n2 \<and> performed rt (files w2) n2 ?esx \<and>
                       files w3 = filesAfter (files w2) n2
         else \<not> inES status \<and> ?cast (files w2) ?es = None \<and> writes w3 = writes w2 \<and> files w3 = files w2)"
    proof (cases "inES status")
      case True
      then show ?thesis using es by auto
    next
      case False
      then have a: "addToLocale rt ''es'' dir (key status) tr w2 = (ok2, w3)" using es by simp
      show ?thesis
      proof (cases ok2)
        case True
        with addToLocale_effect[OF a] obtain d where d: "?cast (files w2) ?es = Some d"
          "writes w3 = writes w2 @ [(?es, d)]" "files w3 = (files w2)(?es := Doc d)" "stdin w3 = stdin w2"
          by auto
        then have "writes w3 = writes w2 @ [(?es, d)] \<and> performed rt (files w2) [(?es, d)] ?esx \<and>
            files w3 = filesAfter (files w2) [(?es, d)]"
          using False by simp
        then have "\<exists>n2. writes w3 = writes w2 @ n2 \<and> performed rt (files w2) n2 ?esx \<and>
            files w3 = filesAfter (files w2) n2"
          by (rule exI)
        then show ?thesis using True d(4) by simp
      next
        case ok: False
        with addToLocale_effect[OF a] False show ?thesis by auto
      qed
    qed
    have run: "addLoop rt dir (status # rest) w =
        (if \<not> ok1 then (Threw, w2) else if \<not> ok2 then (Threw, w3) else addLoop rt dir rest w3)"
    proof -
      have "addLoop rt dir (status # rest) w =
          (case (if \<not> inEN status then addToLocale rt ''en'' dir (key status) tr w1 else (True, w1)) of
             (False, w2) \<Rightarrow> (Threw, w2)
           | (True, w2) \<Rightarrow>
               (case (if \<not> inES status then addToLocale rt ''es'' dir (key status) tr w2
                      else (True, w2)) of
                  (False, w3) \<Rightarrow> (Threw, w3)
                | (True, w3) \<Rightarrow> addLoop rt dir rest w3))"
        unfolding tr_def by (simp add: ask Let_def)
      then show ?thesis
        unfolding en using es by (cases ok1; cases ok2; simp)
    qed
    show ?thesis
    proof (cases ok1)
      case False
      then have o: "out = Threw" "w' = w2" using run Cons.prems by simp_all
      from en_eff False have e: "\<not> inEN status" "?cast (files w) ?en = None" "writes w2 = writes w"
        "files w2 = files w" by simp_all
      have "writes w' = writes w @ []" "performed rt (files w) [] []" "files w' = filesAfter (files w) []"
        using o e by simp_all
      moreover have "expectedWrites rt dir (status # rest) (stdin w) =
          [] @ ((?en, key status, tr) # ?esx @ expectedWrites rt dir rest answers)"
        using exp e(1) by simp
      moreover have "setNestedKey_cast rt (loaded_or_empty (files w' ?en)) (split_dot (key status)) tr = None"
        using o e by simp
      ultimately show ?thesis using o(1) by blast
    next
      case ok1: True
      from en_eff ok1 obtain n1 where n1: "writes w2 = writes w @ n1" "performed rt (files w) n1 ?enx"
        "files w2 = filesAfter (files w) n1" by auto
      show ?thesis
      proof (cases ok2)
        case False
        then have o: "out = Threw" "w' = w3" using run ok1 Cons.prems by simp_all
        from es_eff False have e: "\<not> inES status" "?cast (files w2) ?es = None" "writes w3 = writes w2"
          "files w3 = files w2" by simp_all
        have "writes w' = writes w @ n1" "files w' = filesAfter (files w) n1"
          using e n1 o by simp_all
        moreover have "expectedWrites rt dir (status # rest) (stdin w) =
            ?enx @ ((?es, key status, tr) # expectedWrites rt dir rest answers)"
          using exp e(1) by simp
        moreover have "setNestedKey_cast rt (loaded_or_empty (files w' ?es)) (split_dot (key status)) tr = None"
          using o e by simp
        ultimately show ?thesis using n1(2) o(1) by blast
      next
        case ok2: True
        from es_eff ok2 obtain n2 where n2: "writes w3 = writes w2 @ n2" "performed rt (files w2) n2 ?esx"
          "files w3 = filesAfter (files w2) n2" by auto
        have rec: "addLoop rt dir rest w3 = (out, w')" using run ok1 ok2 Cons.prems by simp
        have st3: "stdin w3 = answers" using en_eff es_eff by simp
        from Cons.IH[OF rec] obtain n3 m3 r3 where n3: "writes w' = writes w3 @ n3"
          "expectedWrites rt dir rest answers = m3 @ r3" "performed rt (files w3) n3 m3"
          "files w' = filesAfter (files w3) n3"
          "out = Completed \<longrightarrow> r3 = []"
          "out = Threw \<longrightarrow> (\<exists>p k tr rest. r3 = (p, k, tr) # rest \<and>
             setNestedKey_cast rt (loaded_or_empty (files w' p)) (split_dot k) tr = None)"
          unfolding st3 by blast
        have a: "writes w' = writes w @ (n1 @ n2 @ n3)" using n1 n2 n3 by simp
        have b: "expectedWrites rt dir (status # rest) (stdin w) = (?enx @ ?esx @ m3) @ r3"
          using exp n3(2) by simp
        have "performed rt (filesAfter (files w) n1) (n2 @ n3) (?esx @ m3)"
          using n2(2) n3(3) unfolding n2(3) n1(3) by (rule performed_append)
        with n1(2) have c: "performed rt (files w) (n1 @ n2 @ n3) (?enx @ ?esx @ m3)"
          by (rule performed_append)
        have d: "files w' = filesAfter (files w) (n1 @ n2 @ n3)"
          using n1(3) n2(3) n3(4) by (simp add: filesAfter_append)
        from a b c d n3(5,6) show ?thesis by blast
      qed
    qed
  qed
qed

lemma deleteKeys_effect:
  assumes "deleteKeysFromLocale results l w = (out, w')"
  shows "(writes w' = writes w \<and> files w' = files w \<and> out \<noteq> Completed) \<or>
         (out = Completed \<and>
          (\<exists>a1 a2 rest w3 d.
             stdin w = a1 # a2 # rest \<and>
             (toLowerCase a1 = ''y'' \<or> toLowerCase a1 = ''yes'') \<and>
             (toLowerCase a2 = ''y'' \<or> toLowerCase a2 = ''yes'') \<and>
             keysInLocaleOnly results l \<noteq> [] \<and>
             loadLocale l (localesDir results) (w\<lparr>stdin := rest\<rparr>) = (d, w3) \<and> truthy d \<and>
             writes w' = writes w @
               [(localePath (localesDir results) l, snd (removeLoop d (keysInLocaleOnly results l) 0))] \<and>
             files w' = (files w)(localePath (localesDir results) l :=
               Doc (snd (removeLoop d (keysInLocaleOnly results l) 0)))))"
proof (cases "keysInLocaleOnly results l = []")
  case True
  then show ?thesis using assms by (simp add: deleteKeysFromLocale_def)
next
  case ks: False
  show ?thesis
  proof (cases "stdin w")
    case Nil
    then show ?thesis using assms ks by (auto simp: deleteKeysFromLocale_def askConfirmation_def)
  next
    case c1: (Cons a1 r1)
    show ?thesis
    proof (cases "toLowerCase a1 = ''y'' \<or> toLowerCase a1 = ''yes''")
      case False
      then show ?thesis using assms ks c1
        by (auto simp: deleteKeysFromLocale_def askConfirmation_def)
    next
      case y1: True
      show ?thesis
      proof (cases r1)
        case Nil
        then show ?thesis using assms ks c1 y1
          by (auto simp: deleteKeysFromLocale_def askConfirmation_def)
      next
        case c2: (Cons a2 rest)
        show ?thesis
        proof (cases "toLowerCase a2 = ''y'' \<or> toLowerCase a2 = ''yes''")
          case False
          then show ?thesis using assms ks c1 y1 c2
            by (auto simp: deleteKeysFromLocale_def askConfirmation_def)
        next
          case y2: True
          obtain d w3 where ld: "loadLocale l (localesDir results) (w\<lparr>stdin := rest\<rparr>) = (d, w3)"
            by (cases "loadLocale l (localesDir results) (w\<lparr>stdin := rest\<rparr>)")
          note fr = loadLocale_frame[OF ld]
          show ?thesis
          proof (cases "truthy d")
            case False
            then show ?thesis using assms ks c1 y1 c2 y2 ld fr
              by (auto simp: deleteKeysFromLocale_def askConfirmation_def)
          next
            case True
            have "out = Completed \<and> w' = writeFile (localePath (localesDir results) l)
                     (snd (removeLoop d (keysInLocaleOnly results l) 0)) w3"
              using assms ks c1 y1 c2 y2 ld True
              by (auto simp: deleteKeysFromLocale_def askConfirmation_def split: prod.splits)
            then show ?thesis using ks c1 y1 c2 y2 ld fr True
              by (auto simp: writeFile_def)
          qed
        qed
      qed
    qed
  qed
qed


lemma expectedWrites_paths:
  "(p, k, tr) \<in> set (expectedWrites rt dir ks answers) \<Longrightarrow>
   \<exists>s \<in> set ks. key s = k \<and> (p = localePath dir ''en'' \<and> \<not> inEN s \<or> p = localePath dir ''es'' \<and> \<not> inES s)"
  by (induction rt dir ks answers rule: expectedWrites.induct) (auto simp: Let_def split: if_splits)

lemma addMissingKeys_writes:
  assumes "addMissingKeys rt results w = (out, w')"
  shows "\<exists>new matched remaining.
     writes w' = writes w @ new \<and>
     expectedWrites rt (localesDir results) (keysInCodeOnly results) (tl (stdin w)) = matched @ remaining \<and>
     performed rt (files w) new matched \<and>
     files w' = filesAfter (files w) new \<and>
     (out = Completed \<longrightarrow> remaining = []) \<and>
     (out = Threw \<longrightarrow>
        (\<exists>p k tr rest. remaining = (p, k, tr) # rest \<and>
           setNestedKey_cast rt (loaded_or_empty (files w' p)) (split_dot k) tr = None))"
proof -
  let ?ex = "expectedWrites rt (localesDir results) (keysInCodeOnly results) (tl (stdin w))"
  have idle: ?thesis if "writes w' = writes w" "files w' = files w" "out \<noteq> Completed" "out \<noteq> Threw"
  proof -
    have "writes w' = writes w @ []" "?ex = [] @ ?ex" "performed rt (files w) [] []"
      "files w' = filesAfter (files w) []"
      using that by simp_all
    then show ?thesis using that(3,4) by blast
  qed
  show ?thesis
  proof (cases "keysInCodeOnly results = [] \<or> stdin w = [] \<or>
                \<not> (toLowerCase (hd (stdin w)) = ''y'' \<or> toLowerCase (hd (stdin w)) = ''yes'')")
    case True
    then have "writes w' = writes w \<and> files w' = files w \<and> out \<noteq> Completed \<and> out \<noteq> Threw"
      using assms by (auto simp: addMissingKeys_def askConfirmation_def split: list.splits if_splits)
    then show ?thesis using idle by blast
  next
    case False
    then obtain a rest where st: "stdin w = a # rest" by (cases "stdin w") auto
    have "addLoop rt (localesDir results) (keysInCodeOnly results) (w\<lparr>stdin := rest\<rparr>) = (out, w')"
      using assms False st by (auto simp: addMissingKeys_def askConfirmation_def)
    from addLoop_writes[OF this] show ?thesis by (simp add: st)
  qed
qed

text \<open>On a file that holds a record, for a key free of the accessor, \<^verbatim>\<open>setNestedKey\<close>
  returns an object with the value at the path of the key.\<close>

lemma cast_record:
  assumes "holds_record f" and "accessor_free k"
  shows "\<exists>ps. setNestedKey_cast rt (loaded_or_empty f) (split_dot k) tr = Some (JObj ps) \<and>
              valueAt (JObj ps) (split_dot k) = Some (JStr tr)"
proof -
  from assms(1) obtain qs where qs: "loaded_or_empty f = JObj qs"
    by (auto simp: holds_record_def split: json.splits)
  from valueAt_setNestedKey[OF split_dot_nonempty, of k qs tr] assms(2)
  obtain ps where "setNestedKey qs (split_dot k) tr = Some ps"
    "valueAt (JObj ps) (split_dot k) = Some (JStr tr)"
    by (auto simp: accessor_free_def)
  then show ?thesis by (simp add: qs)
qed

lemma holds_record_Doc [simp]: "holds_record (Doc (JObj ps))"
  by (simp add: holds_record_def loaded_or_empty_def)

lemma performed_carries:
  "performed rt fs ws es \<Longrightarrow>
   \<forall>(p, k, tr) \<in> set es. holds_record (fs p) \<and> accessor_free k \<Longrightarrow>
   list_all2 carries ws es \<and> (\<forall>q. holds_record (fs q) \<longrightarrow> holds_record (filesAfter fs ws q))"
proof (induction rt fs ws es rule: performed.induct)
  case (1 rt fs)
  then show ?case by simp
next
  case (2 rt fs path document ws path' k translation es)
  from "2.prems"(1) have eq: "path = path'"
    and cast: "setNestedKey_cast rt (loaded_or_empty (fs path)) (split_dot k) translation = Some document"
    and rest: "performed rt (fs(path := Doc document)) ws es"
    by auto
  from "2.prems"(2) have here: "holds_record (fs path)" "accessor_free k"
    and inv: "\<forall>(p, k, tr) \<in> set es. holds_record (fs p) \<and> accessor_free k"
    using eq by auto
  from cast_record[OF here, of rt translation] cast obtain ps where
    doc: "document = JObj ps" "valueAt (JObj ps) (split_dot k) = Some (JStr translation)"
    by auto
  have inv': "\<forall>(p, k, tr) \<in> set es. holds_record ((fs(path := Doc document)) p) \<and> accessor_free k"
    using inv doc(1) by auto
  from "2.IH"[OF rest inv'] have ih: "list_all2 carries ws es"
    "\<forall>q. holds_record ((fs(path := Doc document)) q) \<longrightarrow>
         holds_record (filesAfter (fs(path := Doc document)) ws q)"
    by blast+
  have "holds_record (filesAfter fs ((path, document) # ws) q)" if "holds_record (fs q)" for q
  proof -
    have "holds_record ((fs(path := Doc document)) q)" using that doc(1) by simp
    with ih(2) show ?thesis by simp
  qed
  then show ?case using ih(1) doc eq by simp
qed simp_all

text \<open>The frame of add-missing: a path it has not written holds what it held.\<close>

lemma performed_paths:
  "performed rt fs ws es \<Longrightarrow> map fst ws = map fst es"
  by (induction rt fs ws es rule: performed.induct) auto

lemmas run_defs = addMissingKeys_def deleteKeysFromLocale_def keysInCodeOnly_def keysInLocaleOnly_def
  askConfirmation_def askInput_def toLowerCase_def toLowerChar_def ascii_trim_def is_space_def
  example_runtime_def addToLocale_def inherited_accessor_def loadLocale_def writeFile_def
  split_dot_def localePath_def world_of_def
  example_world_def example_files_def example_results_def Let_def

lemma example_results_analysis:
  "analyzeLocales letters_localeCompare example_config [''a'', ''c''] (example_world input)
     = (Some example_results, example_world input)"
  by (simp add: eval_defs example_world_def example_files_def example_results_def
      letters_localeCompare_def collation_key_def toLowerCase_def toLowerChar_def is_upper_def)

lemma example_add_run:
  "fst (addMissingKeys example_runtime example_results (example_world [''Y'', '' ''])) = Completed \<and>
   writes (snd (addMissingKeys example_runtime example_results (example_world [''Y'', '' '']))) =
     [(''src/locales/en.json'', JObj [(''a'', JStr ''1''), (''b'', JStr ''2''), (''c'', JStr ''[c]'')]),
      (''src/locales/es.json'', JObj [(''a'', JStr ''uno''), (''c'', JStr ''[c]'')])] \<and>
   files (snd (addMissingKeys example_runtime example_results (example_world [''Y'', '' '']))) ''src/locales/fr.json''
     = Doc (JObj [(''a'', JStr ''un'')])"
  by (simp add: run_defs)

lemma example_delete_run:
  "fst (deleteKeysFromLocale example_results ''en'' (example_world [''y'', ''YES''])) = Completed \<and>
   writes (snd (deleteKeysFromLocale example_results ''en'' (example_world [''y'', ''YES'']))) =
     [(''src/locales/en.json'', JObj [(''a'', JStr ''1'')])] \<and>
   files (snd (deleteKeysFromLocale example_results ''en'' (example_world [''y'', ''YES''])))
       ''src/locales/es.json''
     = Doc (JObj [(''a'', JStr ''uno'')])"
  by (simp add: run_defs)


text \<open>
  Claim C9, as the spec states it: the one value obtained for a key is written for the
  key into every locale that lacks it. Here \<^verbatim>\<open>en.json\<close> holds the array \<^verbatim>\<open>[1]\<close>,
  \<^verbatim>\<open>es.json\<close> does not exist and the code uses the key \<^verbatim>\<open>c\<close>, which the analysis
  reports as missing from both locales. Add-missing, confirmed and given an empty
  answer, completes: it sets a property of the array, which \<^verbatim>\<open>JSON.stringify\<close> does not
  write, so that \<^verbatim>\<open>en.json\<close> is written back as it was, without the key, and only
  \<^verbatim>\<open>es.json\<close> receives the placeholder.
\<close>

theorem addMissing_array_root_counterexample:
  "analyzeLocales letters_localeCompare example_config [''c''] (world_array [])
     = (Some array_results, world_array []) \<and>
   keysInCodeOnly array_results = [\<lparr>key = ''c'', inCode = True, inEN = False, inES = False\<rparr>] \<and>
   fst (addMissingKeys example_runtime array_results (world_array [''y'', ''''])) = Completed \<and>
   writes (snd (addMissingKeys example_runtime array_results (world_array [''y'', '''']))) =
     [(''src/locales/en.json'', JArr [JNum 1]),
      (''src/locales/es.json'', JObj [(''c'', JStr ''[c]'')])] \<and>
   valueAt (JArr [JNum 1]) (split_dot ''c'') = None"
proof -
  have "analyzeLocales letters_localeCompare example_config [''c''] (world_array [])
     = (Some array_results, world_array [])"
    by (simp add: eval_defs world_array_def array_results_def)
  moreover have "keysInCodeOnly array_results = [\<lparr>key = ''c'', inCode = True, inEN = False, inES = False\<rparr>]"
    by (simp add: keysInCodeOnly_def array_results_def)
  moreover have "fst (addMissingKeys example_runtime array_results (world_array [''y'', ''''])) = Completed \<and>
   writes (snd (addMissingKeys example_runtime array_results (world_array [''y'', '''']))) =
     [(''src/locales/en.json'', JArr [JNum 1]),
      (''src/locales/es.json'', JObj [(''c'', JStr ''[c]'')])]"
    by (simp add: run_defs world_array_def array_results_def settable_index_def array_index_def
        is_digit_def)
  moreover have "valueAt (JArr [JNum 1]) (split_dot ''c'') = None"
    by (simp add: split_dot_def)
  ultimately show ?thesis by simp
qed

text \<open>
  Claim C9, amended. In add-missing one value is obtained per selected key, the answer
  as \<^verbatim>\<open>trim\<close> leaves it or, when that is empty, the key in brackets. When every locale
  file that a selected key is flagged as missing from holds a record (it is a JSON
  object, or gives nothing that is kept: it is absent, unreadable, unparsable or falsy)
  and no selected key has a path segment \<^verbatim>\<open>__proto__\<close>, the operation does not throw and
  its writes are, in order, the expected ones: for each key one write to each locale
  flagged as lacking it, every one of them a document with that same value at the path
  of the key. A run that completes performs all of them, a run that the end of the
  input stops early a first part of them.
\<close>

theorem addMissing_one_value_per_key:
  assumes "addMissingKeys rt results w = (out, w')"
    and "\<forall>s \<in> set (keysInCodeOnly results).
           accessor_free (key s) \<and>
           (\<not> inEN s \<longrightarrow> holds_record (files w (localePath (localesDir results) ''en''))) \<and>
           (\<not> inES s \<longrightarrow> holds_record (files w (localePath (localesDir results) ''es'')))"
  shows "\<exists>new matched remaining.
     writes w' = writes w @ new \<and>
     expectedWrites rt (localesDir results) (keysInCodeOnly results) (tl (stdin w)) = matched @ remaining \<and>
     list_all2 carries new matched \<and>
     (out = Completed \<longrightarrow> remaining = []) \<and>
     out \<noteq> Threw"
proof -
  let ?dir = "localesDir results"
  from addMissingKeys_writes[OF assms(1)] obtain new matched remaining where
    n: "writes w' = writes w @ new"
    "expectedWrites rt ?dir (keysInCodeOnly results) (tl (stdin w)) = matched @ remaining"
    "performed rt (files w) new matched"
    "files w' = filesAfter (files w) new"
    "out = Completed \<longrightarrow> remaining = []"
    "out = Threw \<longrightarrow> (\<exists>p k tr rest. remaining = (p, k, tr) # rest \<and>
        setNestedKey_cast rt (loaded_or_empty (files w' p)) (split_dot k) tr = None)"
    by blast
  have good: "holds_record (files w p) \<and> accessor_free k"
    if "(p, k, tr) \<in> set (matched @ remaining)" for p k tr
  proof -
    from that have "(p, k, tr) \<in> set (expectedWrites rt ?dir (keysInCodeOnly results) (tl (stdin w)))"
      using n(2) by simp
    from expectedWrites_paths[OF this] assms(2) show ?thesis by auto
  qed
  then have inv: "\<forall>(p, k, tr) \<in> set matched. holds_record (files w p) \<and> accessor_free k"
    by auto
  note pc = performed_carries[OF n(3) inv]
  have "out \<noteq> Threw"
  proof
    assume "out = Threw"
    with n(6) obtain p k tr rest where r: "remaining = (p, k, tr) # rest"
      "setNestedKey_cast rt (loaded_or_empty (files w' p)) (split_dot k) tr = None"
      by blast
    from good[of p k tr] r(1) have g: "holds_record (files w p)" "accessor_free k" by simp_all
    from pc g(1) have "holds_record (files w' p)" unfolding n(4) by blast
    from cast_record[OF this g(2), of rt tr] r(2) show False by simp
  qed
  with n(1,2,5) pc show ?thesis by blast
qed

theorem addMissing_one_value_per_key_witness:
  "holds_record (files (example_world [''Y'', '' '']) ''src/locales/en.json'') \<and>
   holds_record (files (example_world [''Y'', '' '']) ''src/locales/es.json'') \<and>
   map (\<lambda>s. accessor_free (key s)) (keysInCodeOnly example_results) = [True] \<and>
   fst (addMissingKeys example_runtime example_results (example_world [''Y'', '' ''])) = Completed \<and>
   expectedWrites example_runtime ''src/locales'' (keysInCodeOnly example_results) ['' '']
     = [(''src/locales/en.json'', ''c'', ''[c]''), (''src/locales/es.json'', ''c'', ''[c]'')] \<and>
   list_all2 carries
     (writes (snd (addMissingKeys example_runtime example_results (example_world [''Y'', '' '']))))
     (expectedWrites example_runtime ''src/locales'' (keysInCodeOnly example_results) ['' ''])"
proof -
  let ?w = "example_world [''Y'', '' '']"
  let ?run = "addMissingKeys example_runtime example_results ?w"
  have ex: "expectedWrites example_runtime ''src/locales'' (keysInCodeOnly example_results) ['' '']
     = [(''src/locales/en.json'', ''c'', ''[c]''), (''src/locales/es.json'', ''c'', ''[c]'')]"
    by (simp add: run_defs)
  have w0: "writes ?w = []" "tl (stdin ?w) = ['' '']" "localesDir example_results = ''src/locales''"
    by (simp_all add: run_defs)
  have h1: "holds_record (files ?w (localePath (localesDir example_results) ''en''))"
    by (simp add: run_defs holds_record_def loaded_or_empty_def)
  have h2: "holds_record (files ?w (localePath (localesDir example_results) ''es''))"
    by (simp add: run_defs holds_record_def loaded_or_empty_def)
  have h3': "map (\<lambda>s. accessor_free (key s)) (keysInCodeOnly example_results) = [True]"
    by (simp add: run_defs accessor_free_def)
  have h3: "\<forall>s \<in> set (keysInCodeOnly example_results).
           accessor_free (key s) \<and>
           (\<not> inEN s \<longrightarrow> holds_record (files ?w (localePath (localesDir example_results) ''en''))) \<and>
           (\<not> inES s \<longrightarrow> holds_record (files ?w (localePath (localesDir example_results) ''es'')))"
    using h1 h2 h3' by (simp add: keysInCodeOnly_def example_results_def)
  from addMissing_one_value_per_key[of example_runtime example_results ?w "fst ?run" "snd ?run",
      OF _ h3]
  obtain new matched remaining where
    "writes (snd ?run) = new"
    "expectedWrites example_runtime ''src/locales'' (keysInCodeOnly example_results) ['' ''] = matched @ remaining"
    "list_all2 carries new matched"
    "fst ?run = Completed \<longrightarrow> remaining = []"
    unfolding w0 by auto
  then show ?thesis using example_add_run ex h1 h2 h3' by (auto simp: localePath_def example_results_def)
qed

lemma loaded_or_empty_load:
  "loaded_or_empty (files w (localePath d l)) =
     (if truthy (fst (loadLocale l d w)) then fst (loadLocale l d w) else JObj [])"
  by (auto simp: loaded_or_empty_def loadLocale_def split: disk_file.splits)

text \<open>
  Claim C8, as the spec states it: add-missing writes the file of a locale only when that
  locale lacks the key being added. The menu hands one report to every operation until
  the project is analysed again. After the analysis of the example files, with \<^verbatim>\<open>c\<close>
  missing from both locales, a first pass of add-missing gives \<^verbatim>\<open>c\<close> the value \<^verbatim>\<open>x\<close> in
  both files; a second pass on the same report writes both files again, for the key
  \<^verbatim>\<open>c\<close> that each of them now holds.
\<close>

theorem addMissing_stale_report_counterexample:
  "analyzeLocales letters_localeCompare example_config [''a'', ''c''] (example_world [])
     = (Some example_results, example_world []) \<and>
   files (snd (addMissingKeys example_runtime example_results
                 (example_world [''y'', ''x'', ''y'', ''z''])))
       ''src/locales/en.json''
     = Doc (JObj [(''a'', JStr ''1''), (''b'', JStr ''2''), (''c'', JStr ''x'')]) \<and>
   ''c'' \<in> set (getKeys (JObj [(''a'', JStr ''1''), (''b'', JStr ''2''), (''c'', JStr ''x'')]) []) \<and>
   writes (snd (addMissingKeys example_runtime example_results
                  (snd (addMissingKeys example_runtime example_results
                          (example_world [''y'', ''x'', ''y'', ''z''])))))
     = [(''src/locales/en.json'', JObj [(''a'', JStr ''1''), (''b'', JStr ''2''), (''c'', JStr ''x'')]),
        (''src/locales/es.json'', JObj [(''a'', JStr ''uno''), (''c'', JStr ''x'')]),
        (''src/locales/en.json'', JObj [(''a'', JStr ''1''), (''b'', JStr ''2''), (''c'', JStr ''z'')]),
        (''src/locales/es.json'', JObj [(''a'', JStr ''uno''), (''c'', JStr ''z'')])]"
proof -
  have first: "addMissingKeys example_runtime example_results (example_world [''y'', ''x'', ''y'', ''z''])
      = (Completed,
         (example_world [''y'', ''z''])
           \<lparr>files := (files (example_world []))
               (''src/locales/en.json'' := Doc (JObj [(''a'', JStr ''1''), (''b'', JStr ''2''), (''c'', JStr ''x'')]),
                ''src/locales/es.json'' := Doc (JObj [(''a'', JStr ''uno''), (''c'', JStr ''x'')])),
             writes :=
               [(''src/locales/en.json'', JObj [(''a'', JStr ''1''), (''b'', JStr ''2''), (''c'', JStr ''x'')]),
                (''src/locales/es.json'', JObj [(''a'', JStr ''uno''), (''c'', JStr ''x'')])]\<rparr>)"
    by (simp add: run_defs)
  have "''c'' \<in> set (getKeys (JObj [(''a'', JStr ''1''), (''b'', JStr ''2''), (''c'', JStr ''x'')]) [])"
    by (simp add: set_add_def)
  moreover have "writes (snd (addMissingKeys example_runtime example_results
                  (snd (addMissingKeys example_runtime example_results
                          (example_world [''y'', ''x'', ''y'', ''z''])))))
     = [(''src/locales/en.json'', JObj [(''a'', JStr ''1''), (''b'', JStr ''2''), (''c'', JStr ''x'')]),
        (''src/locales/es.json'', JObj [(''a'', JStr ''uno''), (''c'', JStr ''x'')]),
        (''src/locales/en.json'', JObj [(''a'', JStr ''1''), (''b'', JStr ''2''), (''c'', JStr ''z'')]),
        (''src/locales/es.json'', JObj [(''a'', JStr ''uno''), (''c'', JStr ''z'')])]"
    unfolding first by (simp add: run_defs)
  ultimately show ?thesis
    using example_results_analysis[of "[]"] by (simp add: first)
qed

text \<open>
  Claim C8, amended. Delete-unused on a locale writes no file but that locale's, and
  leaves every other file as it was. The writes of add-missing go, in order, to the
  paths of a first part of the expected additions, one write for each, and the key of
  an addition is a selected key that the report flags as missing from the locale of
  that path; every file that add-missing does not write is left as it was. Where no
  selected key has a path segment \<^verbatim>\<open>__proto__\<close>, each write is that of the file with the
  key of its addition set in it. In a report that an analysis returns, the flag of a
  locale says whether the key was among the flattened keys of that locale's file as the
  analysis found it, which writes no file; the flag is not looked up again when the
  write is made.
\<close>

theorem mutations_leave_other_files:
  "(deleteKeysFromLocale results l w = (out, w') \<longrightarrow>
      (\<exists>new. writes w' = writes w @ new \<and>
             (\<forall>(p, d) \<in> set new. p = localePath (localesDir results) l)) \<and>
      (\<forall>p. p \<noteq> localePath (localesDir results) l \<longrightarrow> files w' p = files w p)) \<and>
   (addMissingKeys rt results w = (out, w') \<longrightarrow>
      (\<exists>new matched remaining.
          writes w' = writes w @ new \<and>
          expectedWrites rt (localesDir results) (keysInCodeOnly results) (tl (stdin w))
            = matched @ remaining \<and>
          map fst new = map fst matched \<and>
          (\<forall>(p, k, tr) \<in> set matched. \<exists>s \<in> set (keysInCodeOnly results). key s = k \<and>
              (p = localePath (localesDir results) ''en'' \<and> \<not> inEN s \<or>
               p = localePath (localesDir results) ''es'' \<and> \<not> inES s)) \<and>
          (\<forall>p. p \<notin> fst ` set new \<longrightarrow> files w' p = files w p) \<and>
          ((\<forall>s \<in> set (keysInCodeOnly results). accessor_free (key s)) \<longrightarrow>
             performed rt (files w) new matched))) \<and>
   (analyzeLocales localeCompare cfg scanned w0 = (Some results, w) \<longrightarrow>
      files w = files w0 \<and>
      (\<forall>s \<in> set (keyStatuses results).
          inEN s = (key s \<in> set (getKeys
                      (loaded_or_empty (files w0 (localePath (localesDir results) ''en''))) [])) \<and>
          inES s = (key s \<in> set (getKeys
                      (loaded_or_empty (files w0 (localePath (localesDir results) ''es''))) []))))"
proof (intro conjI impI)
  assume del: "deleteKeysFromLocale results l w = (out, w')"
  from deleteKeys_effect[OF del] consider
    (idle) "writes w' = writes w" |
    (written) d where "writes w' = writes w @ [(localePath (localesDir results) l, d)]"
    by blast
  then show "\<exists>new. writes w' = writes w @ new \<and> (\<forall>(p, d) \<in> set new. p = localePath (localesDir results) l)"
  proof cases
    case idle
    then have "writes w' = writes w @ [] \<and> (\<forall>(p, d) \<in> set []. p = localePath (localesDir results) l)"
      by simp
    then show ?thesis by (rule exI)
  next
    case written
    then have "writes w' = writes w @ [(localePath (localesDir results) l, d)] \<and>
        (\<forall>(p, d') \<in> set [(localePath (localesDir results) l, d)]. p = localePath (localesDir results) l)"
      by simp
    then show ?thesis by (rule exI)
  qed
  from deleteKeys_effect[OF del]
  show "\<forall>p. p \<noteq> localePath (localesDir results) l \<longrightarrow> files w' p = files w p"
    by auto
next
  assume add: "addMissingKeys rt results w = (out, w')"
  let ?ex = "expectedWrites rt (localesDir results) (keysInCodeOnly results) (tl (stdin w))"
  from addMissingKeys_writes[OF add] obtain new matched remaining where
    n: "writes w' = writes w @ new" "?ex = matched @ remaining"
    "performed rt (files w) new matched" "files w' = filesAfter (files w) new"
    by blast
  have flags: "\<forall>(p, k, tr) \<in> set matched. \<exists>s \<in> set (keysInCodeOnly results). key s = k \<and>
              (p = localePath (localesDir results) ''en'' \<and> \<not> inEN s \<or>
               p = localePath (localesDir results) ''es'' \<and> \<not> inES s)"
  proof (intro ballI, clarify)
    fix p k tr assume "(p, k, tr) \<in> set matched"
    then have "(p, k, tr) \<in> set ?ex" using n(2) by simp
    from expectedWrites_paths[OF this]
    show "\<exists>s \<in> set (keysInCodeOnly results). key s = k \<and>
              (p = localePath (localesDir results) ''en'' \<and> \<not> inEN s \<or>
               p = localePath (localesDir results) ''es'' \<and> \<not> inES s)" .
  qed
  have frame: "\<forall>p. p \<notin> fst ` set new \<longrightarrow> files w' p = files w p"
    unfolding n(4) by (simp add: filesAfter_frame)
  note paths = performed_paths[OF n(3)]
  from n(1,2,3) paths flags frame
  show "\<exists>new matched remaining.
          writes w' = writes w @ new \<and> ?ex = matched @ remaining \<and>
          map fst new = map fst matched \<and>
          (\<forall>(p, k, tr) \<in> set matched. \<exists>s \<in> set (keysInCodeOnly results). key s = k \<and>
              (p = localePath (localesDir results) ''en'' \<and> \<not> inEN s \<or>
               p = localePath (localesDir results) ''es'' \<and> \<not> inES s)) \<and>
          (\<forall>p. p \<notin> fst ` set new \<longrightarrow> files w' p = files w p) \<and>
          ((\<forall>s \<in> set (keysInCodeOnly results). accessor_free (key s)) \<longrightarrow>
             performed rt (files w) new matched)"
    by blast
next
  assume an: "analyzeLocales localeCompare cfg scanned w0 = (Some results, w)"
  from analyzeLocales_Some[OF an] show "files w = files w0" by blast
next
  assume an: "analyzeLocales localeCompare cfg scanned w0 = (Some results, w)"
  from analyzeLocales_Some[OF an] obtain en es where
    a: "fst (loadLocale ''en'' (localesDir results) w0) = en" "truthy en"
    "fst (loadLocale ''es'' (localesDir results) w0) = es"
    "keyStatuses results =
      sort_by (\<lambda>a b. localeCompare (key a) (key b))
        (map (\<lambda>k. \<lparr>key = k, inCode = (k \<in> set scanned), inEN = (k \<in> set (getKeys en [])),
                    inES = (truthy es \<and> k \<in> set (getKeys es []))\<rparr>)
           (new_Set (new_Set (getKeys en [] @ (if truthy es then getKeys es [] else [])) @ scanned)))"
    by blast
  have en: "loaded_or_empty (files w0 (localePath (localesDir results) ''en'')) = en"
    using a(1,2) by (simp add: loaded_or_empty_load)
  have es: "getKeys (loaded_or_empty (files w0 (localePath (localesDir results) ''es''))) [] =
      (if truthy es then getKeys es [] else [])"
    using a(3) by (simp add: loaded_or_empty_load)
  show "\<forall>s \<in> set (keyStatuses results).
          inEN s = (key s \<in> set (getKeys
                      (loaded_or_empty (files w0 (localePath (localesDir results) ''en''))) [])) \<and>
          inES s = (key s \<in> set (getKeys
                      (loaded_or_empty (files w0 (localePath (localesDir results) ''es''))) []))"
    unfolding en es a(4) by (auto simp: set_sort_by)
qed

theorem mutations_leave_other_files_witness:
  "fst (deleteKeysFromLocale example_results ''en'' (example_world [''y'', ''YES''])) = Completed \<and>
   files (snd (deleteKeysFromLocale example_results ''en'' (example_world [''y'', ''YES''])))
       ''src/locales/es.json''
     = files (example_world [''y'', ''YES'']) ''src/locales/es.json'' \<and>
   fst (addMissingKeys example_runtime example_results (example_world [''Y'', '' ''])) = Completed \<and>
   files (snd (addMissingKeys example_runtime example_results (example_world [''Y'', '' ''])))
       ''src/locales/fr.json''
     = files (example_world [''Y'', '' '']) ''src/locales/fr.json'' \<and>
   map (\<lambda>s. accessor_free (key s)) (keysInCodeOnly example_results) = [True] \<and>
   performed example_runtime (files (example_world [''Y'', '' '']))
     (writes (snd (addMissingKeys example_runtime example_results (example_world [''Y'', '' '']))))
     (expectedWrites example_runtime ''src/locales'' (keysInCodeOnly example_results) ['' '']) \<and>
   inEN \<lparr>key = ''c'', inCode = True, inEN = False, inES = False\<rparr>
     = (''c'' \<in> set (getKeys (loaded_or_empty (files (example_world []) ''src/locales/en.json'')) []))"
proof -
  let ?wd = "example_world [''y'', ''YES'']"
  let ?wa = "example_world [''Y'', '' '']"
  let ?add = "addMissingKeys example_runtime example_results ?wa"
  note d = mutations_leave_other_files[of example_results "''en''" ?wd
      "fst (deleteKeysFromLocale example_results ''en'' ?wd)"
      "snd (deleteKeysFromLocale example_results ''en'' ?wd)"]
  have pd: "deleteKeysFromLocale example_results ''en'' ?wd
      = (fst (deleteKeysFromLocale example_results ''en'' ?wd),
         snd (deleteKeysFromLocale example_results ''en'' ?wd))"
    by simp
  have d1: "files (snd (deleteKeysFromLocale example_results ''en'' ?wd)) ''src/locales/es.json''
      = files ?wd ''src/locales/es.json''"
    using d[THEN conjunct1, THEN mp, OF pd, THEN conjunct2, rule_format, of "''src/locales/es.json''"]
    by (simp add: example_results_def localePath_def)
  note a = mutations_leave_other_files[of example_results _ ?wa "fst ?add" "snd ?add" example_runtime]
  have pa: "?add = (fst ?add, snd ?add)"
    by simp
  have h3: "\<forall>s \<in> set (keysInCodeOnly example_results). accessor_free (key s)"
    by (simp add: run_defs accessor_free_def)
  have h3': "map (\<lambda>s. accessor_free (key s)) (keysInCodeOnly example_results) = [True]"
    by (simp add: run_defs accessor_free_def)
  let ?ex = "expectedWrites example_runtime ''src/locales'' (keysInCodeOnly example_results) ['' '']"
  have ex: "?ex = [(''src/locales/en.json'', ''c'', ''[c]''), (''src/locales/es.json'', ''c'', ''[c]'')]"
    by (simp add: run_defs)
  have w0: "writes ?wa = []" "tl (stdin ?wa) = ['' '']" "localesDir example_results = ''src/locales''"
    by (simp_all add: run_defs)
  from a[THEN conjunct2, THEN conjunct1, THEN mp, OF pa]
  obtain new matched remaining where new: "writes (snd ?add) = new"
    "?ex = matched @ remaining"
    "map fst new = map fst matched"
    "\<forall>p. p \<notin> fst ` set new \<longrightarrow> files (snd ?add) p = files ?wa p"
    "(\<forall>s \<in> set (keysInCodeOnly example_results). accessor_free (key s)) \<longrightarrow>
       performed example_runtime (files ?wa) new matched"
    unfolding w0 by auto
  from new(1) example_add_run have "''src/locales/fr.json'' \<notin> fst ` set new" by auto
  with new(4) have a1: "files (snd ?add) ''src/locales/fr.json'' = files ?wa ''src/locales/fr.json''"
    by blast
  have "length matched = length (map fst new)" unfolding new(3) by simp
  also have "\<dots> = 2"
    unfolding new(1)[symmetric] example_add_run[THEN conjunct2, THEN conjunct1] by simp
  finally have lm: "length matched = 2" .
  have "length ?ex = length matched + length remaining"
    unfolding new(2)[symmetric] length_append[symmetric] ..
  with lm have "remaining = []" unfolding ex by simp
  with new(2) have "matched = ?ex" by simp
  with new(1,5) h3 have pf: "performed example_runtime (files ?wa) (writes (snd ?add)) ?ex" by simp
  have "\<lparr>key = ''c'', inCode = True, inEN = False, inES = False\<rparr> \<in> set (keyStatuses example_results)"
    by (simp add: example_results_def)
  note mutations_leave_other_files[of example_results _ "example_world []" _ _ _ letters_localeCompare
      example_config "[''a'', ''c'']" "example_world []",
      THEN conjunct2, THEN conjunct2, THEN mp, OF example_results_analysis, THEN conjunct2,
      rule_format, OF this, THEN conjunct1]
  then have f: "inEN \<lparr>key = ''c'', inCode = True, inEN = False, inES = False\<rparr>
     = (''c'' \<in> set (getKeys (loaded_or_empty (files (example_world []) ''src/locales/en.json'')) []))"
    by (simp add: example_results_def localePath_def)
  from d1 a1 f h3' pf example_add_run example_delete_run show ?thesis by simp
qed


section \<open>Trees: leaves, paths and flattened keys\<close>

subsection \<open>Leaves\<close>

lemma leafAt_Nil_obj [simp]: "leafAt (JObj ps) [] = None"
  by (simp add: leafAt_def)

lemma leafAt_Cons_obj [simp]:
  "leafAt (JObj ps) (k # ks) = (case map_of ps k of None \<Rightarrow> None | Some c \<Rightarrow> leafAt c ks)"
  by (simp add: leafAt_def split: option.splits)

lemma leafAt_non_object:
  "\<forall>cs. v \<noteq> JObj cs \<Longrightarrow> leafAt v p = (if p = [] then Some v else None)"
  by (cases v; cases p) (simp_all add: leafAt_def)

lemma leafAt_leaf [simp]:
  "leafAt JNull p = (if p = [] then Some JNull else None)"
  "leafAt (JBool b) p = (if p = [] then Some (JBool b) else None)"
  "leafAt (JNum n) p = (if p = [] then Some (JNum n) else None)"
  "leafAt (JStr s) p = (if p = [] then Some (JStr s) else None)"
  "leafAt (JArr xs) p = (if p = [] then Some (JArr xs) else None)"
  by (simp_all add: leafAt_non_object)

lemma leafAt_not_object: "leafAt t p = Some l \<Longrightarrow> l \<noteq> JObj cs"
  by (auto simp: leafAt_def split: option.splits json.splits)

lemma leafAt_empty_obj [simp]: "leafAt (JObj []) p = None"
  by (cases p) simp_all

lemma comparable_refl [simp]: "comparable p p"
  by (induction p) simp_all

lemma comparable_Nil2 [simp]: "comparable p []"
  by (cases p) simp_all

lemma comparable_sym: "comparable p q = comparable q p"
  by (induction p q rule: comparable.induct) auto

text \<open>The leaf paths of one tree are pairwise incomparable.\<close>

lemma leaves_incomparable:
  "leafAt t p = Some a \<Longrightarrow> leafAt t q = Some b \<Longrightarrow> comparable p q \<Longrightarrow> p = q"
proof (induction p q arbitrary: t rule: comparable.induct)
  case (1 q)
  then show ?case by (cases t; cases q) auto
next
  case (2 k p)
  then show ?case by (cases t) auto
next
  case (3 k p k' q)
  then show ?case by (cases t) (auto split: option.splits)
qed

subsection \<open>setNestedKey on leaves\<close>

lemma leafAt_setNestedKey:
  "p \<noteq> [] \<Longrightarrow> ''__proto__'' \<notin> set p \<Longrightarrow>
   \<exists>obj'. setNestedKey obj p v = Some obj' \<and>
     (\<forall>q. leafAt (JObj obj') q =
        (if q = p then Some (JStr v) else if comparable p q then None else leafAt (JObj obj) q))"
proof (induction obj p v rule: setNestedKey.induct)
  case (1 obj v)
  then show ?case by simp
next
  case (2 obj k v)
  then have res: "setNestedKey obj [k] v = Some (AList.update k (JStr v) obj)"
    by (simp add: inherited_accessor_def)
  have "leafAt (JObj (AList.update k (JStr v) obj)) q =
      (if q = [k] then Some (JStr v) else if comparable [k] q then None else leafAt (JObj obj) q)" for q
  proof (cases q)
    case Nil
    then show ?thesis by simp
  next
    case (Cons k' q')
    then show ?thesis
      by (cases q') (auto simp: AList.update_conv' leafAt_non_object split: option.splits)
  qed
  with res show ?case by simp
next
  case (3 obj k k2 rest v)
  let ?child = "case map_of obj k of Some (JObj cs) \<Rightarrow> cs | _ \<Rightarrow> []"
  from "3.prems" have np: "\<not> inherited_accessor obj k" by (auto simp: inherited_accessor_def)
  from "3.IH"[OF np] "3.prems" obtain c' where c': "setNestedKey ?child (k2 # rest) v = Some c'"
    and lv: "\<And>q. leafAt (JObj c') q =
        (if q = k2 # rest then Some (JStr v) else if comparable (k2 # rest) q then None
         else leafAt (JObj ?child) q)"
    by auto
  have res: "setNestedKey obj (k # k2 # rest) v = Some (AList.update k (JObj c') obj)"
    using np c' by simp
  have "leafAt (JObj (AList.update k (JObj c') obj)) q =
      (if q = k # k2 # rest then Some (JStr v) else if comparable (k # k2 # rest) q then None
       else leafAt (JObj obj) q)" for q
  proof (cases q)
    case Nil
    then show ?thesis by simp
  next
    case (Cons k' q')
    show ?thesis
    proof (cases "k' = k")
      case False
      then show ?thesis using Cons by (simp add: AList.update_conv')
    next
      case True
      have old: "\<not> comparable (k2 # rest) q' \<Longrightarrow> leafAt (JObj ?child) q' = leafAt (JObj obj) (k # q')"
        by (cases q') (auto split: option.splits json.splits simp: leafAt_non_object)
      show ?thesis
        using True Cons lv[of q'] old
        by (simp add: AList.update_conv')
    qed
  qed
  with res show ?case by simp
qed


subsection \<open>removeKey on leaves\<close>

lemma removeKey_leaf:
  "leafAt (JObj ps) p = Some l \<Longrightarrow>
   \<exists>ps'. removeKey (JObj ps) p = (True, JObj ps') \<and>
         (\<forall>q. leafAt (JObj ps') q = (if q = p then None else leafAt (JObj ps) q))"
proof (induction p arbitrary: ps l)
  case Nil
  then show ?case by simp
next
  case (Cons k rest)
  from Cons.prems obtain c where c: "map_of ps k = Some c" "leafAt c rest = Some l"
    by (auto split: option.splits)
  show ?case
  proof (cases rest)
    case Nil
    with c have leaf: "\<forall>cs. c \<noteq> JObj cs" by (cases c) auto
    have "leafAt (JObj (AList.delete k ps)) q = (if q = [k] then None else leafAt (JObj ps) q)" for q
    proof (cases q)
      case Nil
      then show ?thesis by simp
    next
      case (Cons k' q')
      then show ?thesis using c(1) leaf
        by (auto simp: AList.delete_conv' leafAt_non_object)
    qed
    then show ?thesis using Nil c(1) by simp
  next
    case (Cons k2 rest')
    with c obtain cs where cs: "c = JObj cs" by (cases c) auto
    from Cons.IH[of cs l] c(2) cs obtain cs' where
      rec: "removeKey (JObj cs) rest = (True, JObj cs')"
      and lv: "\<forall>q. leafAt (JObj cs') q = (if q = rest then None else leafAt (JObj cs) q)"
      by auto
    let ?ps' = "if cs' = [] then AList.delete k ps else AList.update k (JObj cs') ps"
    have run: "removeKey (JObj ps) (k # rest) = (True, JObj ?ps')"
      using c(1) cs rec Cons by simp
    have "leafAt (JObj ?ps') q = (if q = k # rest then None else leafAt (JObj ps) q)" for q
    proof (cases q)
      case Nil
      then show ?thesis by simp
    next
      case q: (Cons k' q')
      show ?thesis
      proof (cases "k' = k")
        case False
        then show ?thesis using q by (simp add: AList.delete_conv' AList.update_conv')
      next
        case True
        have "leafAt (JObj ?ps') (k # q') = leafAt (JObj cs') q'"
          by (simp add: AList.delete_conv' AList.update_conv')
        then show ?thesis using True q lv c(1) cs by simp
      qed
    qed
    with run show ?thesis by blast
  qed
qed

lemma well_keyed_props_iff:
  "well_keyed_props ps \<longleftrightarrow> (\<forall>(k, v) \<in> set ps. segment_ok k \<and> well_keyed v)"
  by (induction ps) auto

lemma well_keyed_props_delete: "well_keyed_props ps \<Longrightarrow> well_keyed_props (AList.delete k ps)"
  by (auto simp: well_keyed_props_iff AList.delete_eq)

lemma well_keyed_props_update:
  "well_keyed_props ps \<Longrightarrow> segment_ok k \<Longrightarrow> well_keyed v \<Longrightarrow>
   well_keyed_props (AList.update k v ps)"
  by (induction ps) auto

lemma well_keyed_child:
  "well_keyed (JObj ps) \<Longrightarrow> map_of ps k = Some c \<Longrightarrow> segment_ok k \<and> well_keyed c"
  by (auto simp: well_keyed_props_iff dest: map_of_SomeD)

lemma well_keyed_replace:
  assumes "well_keyed (JObj ps)" "map_of ps k = Some c" "well_keyed c'"
  shows "well_keyed (JObj (if c' = JObj [] then AList.delete k ps else AList.update k c' ps))"
  using assms well_keyed_child[OF assms(1,2)]
  by (simp add: well_keyed_props_delete well_keyed_props_update AList.distinct_delete
      AList.distinct_update)

lemma well_keyed_removeKey: "well_keyed t \<Longrightarrow> well_keyed (snd (removeKey t p))"
proof (induction t p rule: removeKey_induct)
  case (last_segment ps k)
  then show ?case by (simp add: well_keyed_props_delete AList.distinct_delete)
next
  case (empty_path ps)
  show ?case
  proof (cases "map_of ps ''undefined''")
    case None
    then show ?thesis using empty_path.prems by simp
  next
    case (Some child)
    show ?thesis
    proof (cases "is_object child \<and> fst (removeKey child [])")
      case False
      then show ?thesis using Some empty_path.prems by (auto simp: Let_def split: prod.splits)
    next
      case True
      have "well_keyed (snd (removeKey child []))"
        using empty_path.IH[of "''undefined''" child] Some True
          well_keyed_child[OF empty_path.prems Some] by simp
      from well_keyed_replace[OF empty_path.prems Some this]
      show ?thesis using Some True by (auto simp: Let_def split: prod.splits)
    qed
  qed
next
  case (descend ps k k' rest)
  show ?case
  proof (cases "map_of ps k")
    case None
    then show ?thesis using descend.prems by simp
  next
    case (Some child)
    show ?thesis
    proof (cases "is_object child \<and> fst (removeKey child (k' # rest))")
      case False
      then show ?thesis using Some descend.prems by (auto simp: Let_def split: prod.splits)
    next
      case True
      have "well_keyed (snd (removeKey child (k' # rest)))"
        using descend.IH[of k child] Some True
          well_keyed_child[OF descend.prems Some] by simp
      from well_keyed_replace[OF descend.prems Some this]
      show ?thesis using Some True by (auto simp: Let_def split: prod.splits)
    qed
  qed
qed simp_all


subsection \<open>Splitting and joining keys\<close>

lemma split_on_segment: "d \<notin> set k \<Longrightarrow> split_on d k = [k]"
  by (induction k) auto

lemma split_on_append: "d \<notin> set k \<Longrightarrow> split_on d (k @ d # rest) = k # split_on d rest"
  by (induction k) auto

lemma split_join:
  "p \<noteq> [] \<Longrightarrow> \<forall>k \<in> set p. CHR ''.'' \<notin> set k \<Longrightarrow> split_dot (join_dot p) = p"
proof (induction p rule: join_dot.induct)
  case 1
  then show ?case by simp
next
  case (2 k)
  then show ?case by (simp add: split_dot_def split_on_segment)
next
  case (3 k k' ks)
  then show ?case by (simp add: split_dot_def split_on_append)
qed

lemma join_split: "join_dot (split_on d s) = s" if "d = CHR ''.''"
proof (induction s)
  case Nil
  then show ?case by simp
next
  case (Cons c cs)
  obtain x xs where sp: "split_on d cs = x # xs"
    using split_on_nonempty[of d cs] by (cases "split_on d cs") auto
  show ?case
  proof (cases "c = d")
    case True
    then show ?thesis using Cons sp that by simp
  next
    case False
    then show ?thesis using Cons sp by (cases xs) simp_all
  qed
qed

lemma split_dot_inj: "split_dot a = split_dot b \<Longrightarrow> a = b"
  by (metis join_split split_dot_def)

subsection \<open>The flattened keys are the joined leaf paths\<close>

lemma leafPaths_empty [simp]: "leafPaths (JObj []) = {}"
  by (simp add: leafPaths_def)

lemma leafPaths_leaf: "\<forall>cs. v \<noteq> JObj cs \<Longrightarrow> leafPaths v = {[]}"
  by (auto simp: leafPaths_def leafAt_non_object)

lemma leafPaths_obj_nonempty: "p \<in> leafPaths (JObj ps) \<Longrightarrow> p \<noteq> []"
  by (auto simp: leafPaths_def)

lemma leafPaths_Cons:
  assumes "k \<notin> fst ` set ps"
  shows "leafPaths (JObj ((k, v) # ps)) = (#) k ` leafPaths v \<union> leafPaths (JObj ps)"
proof -
  have none: "map_of ps k = None" using assms by (simp add: map_of_eq_None_iff)
  show ?thesis
  proof (intro set_eqI iffI)
    fix p assume "p \<in> leafPaths (JObj ((k, v) # ps))"
    then show "p \<in> (#) k ` leafPaths v \<union> leafPaths (JObj ps)"
      by (cases p) (auto simp: leafPaths_def split: if_splits)
  next
    fix p assume "p \<in> (#) k ` leafPaths v \<union> leafPaths (JObj ps)"
    then show "p \<in> leafPaths (JObj ((k, v) # ps))"
      using none by (cases p) (auto simp: leafPaths_def split: option.splits)
  qed
qed

lemma getKeys_leafPaths_aux:
  "(\<forall>ps. t = JObj ps \<longrightarrow> well_keyed t \<longrightarrow>
      set (getKeys t pre) = (\<lambda>p. with_prefix pre (join_dot p)) ` leafPaths t)"
  "(distinct (map fst qs) \<longrightarrow> well_keyed_props qs \<longrightarrow>
      set (getKeys_loop qs pre' keys) =
        set keys \<union> (\<lambda>p. with_prefix pre' (join_dot p)) ` leafPaths (JObj qs))"
proof (induction t pre and qs pre' keys rule: getKeys_getKeys_loop.induct)
  case (1 ps pre)
  then show ?case by simp
next
  case (7 pre keys)
  then show ?case by simp
next
  case (8 k v ps pre keys)
  let ?F = "\<lambda>p. with_prefix pre (join_dot p)"
  let ?full = "if pre \<noteq> [] then pre @ ''.'' @ k else k"
  let ?keys' = "case v of JObj cs \<Rightarrow> fold set_add (getKeys v ?full) keys | _ \<Rightarrow> set_add ?full keys"
  show ?case
  proof (intro impI)
    assume d: "distinct (map fst ((k, v) # ps))" and wk: "well_keyed_props ((k, v) # ps)"
    then have k: "k \<notin> fst ` set ps" "k \<noteq> []" "well_keyed v" "distinct (map fst ps)" "well_keyed_props ps"
      by (auto simp: segment_ok_def)
    have here: "set ?keys' = set keys \<union> ?F ` ((#) k ` leafPaths v)"
    proof (cases "\<exists>cs. v = JObj cs")
      case True
      then obtain cs where cs: "v = JObj cs" by blast
      have "set (getKeys v ?full) = (\<lambda>p. with_prefix ?full (join_dot p)) ` leafPaths v"
        using "8.IH"(1)[of ?full cs] cs k(3) by simp
      also have "\<dots> = ?F ` ((#) k ` leafPaths v)"
      proof -
        have "with_prefix ?full (join_dot p) = ?F (k # p)" if "p \<in> leafPaths v" for p
        proof -
          from that cs have "p \<noteq> []" by (auto dest: leafPaths_obj_nonempty)
          then obtain a as where "p = a # as" by (cases p) auto
          then show ?thesis using k(2) by (simp add: with_prefix_def)
        qed
        then show ?thesis by (auto simp: image_iff)
      qed
      finally show ?thesis using cs by (simp add: set_fold_set_add Un_commute)
    next
      case False
      then have "leafPaths v = {[]}" by (simp add: leafPaths_leaf)
      moreover have "set ?keys' = insert ?full (set keys)"
        using False by (cases v) (auto simp: set_add_def)
      ultimately show ?thesis by (simp add: with_prefix_def)
    qed
    have "set (getKeys_loop ((k, v) # ps) pre keys) = set (getKeys_loop ps pre ?keys')"
      by (simp add: Let_def)
    also have "\<dots> = set ?keys' \<union> ?F ` leafPaths (JObj ps)"
      using "8.IH"(2)[of ?full] k(4,5) by simp
    also have "\<dots> = set keys \<union> ?F ` leafPaths (JObj ((k, v) # ps))"
      using here by (simp add: leafPaths_Cons[OF k(1)] image_Un Un_assoc)
    finally show "set (getKeys_loop ((k, v) # ps) pre keys) =
        set keys \<union> ?F ` leafPaths (JObj ((k, v) # ps))" .
  qed
qed simp_all

lemma getKeys_leafPaths:
  "well_keyed (JObj ps) \<Longrightarrow> set (getKeys (JObj ps) []) = join_dot ` leafPaths (JObj ps)"
  using getKeys_leafPaths_aux(1)[of "JObj ps" "[]"] by (simp add: with_prefix_def)


lemma leaf_path_segments:
  "well_keyed t \<Longrightarrow> leafAt t p = Some l \<Longrightarrow> \<forall>k \<in> set p. segment_ok k"
proof (induction p arbitrary: t)
  case Nil
  then show ?case by simp
next
  case (Cons k p)
  from Cons.prems(2) obtain ps c where t: "t = JObj ps" "map_of ps k = Some c" "leafAt c p = Some l"
    by (cases t) (auto split: option.splits if_splits)
  from well_keyed_child[of ps k c] Cons.prems(1) t have "segment_ok k" "well_keyed c" by simp_all
  with Cons.IH[of c] t(3) show ?case by simp
qed

lemma split_join_leaf:
  "well_keyed (JObj ps) \<Longrightarrow> p \<in> leafPaths (JObj ps) \<Longrightarrow> split_dot (join_dot p) = p"
  using leaf_path_segments[of "JObj ps" p] leafPaths_obj_nonempty[of p ps]
  by (auto simp: leafPaths_def segment_ok_def intro!: split_join)

lemma key_is_leaf:
  "well_keyed (JObj ps) \<Longrightarrow> k \<in> set (getKeys (JObj ps) []) \<Longrightarrow>
   leafAt (JObj ps) (split_dot k) \<noteq> None"
proof -
  assume wk: "well_keyed (JObj ps)" and k: "k \<in> set (getKeys (JObj ps) [])"
  from k have "k \<in> join_dot ` leafPaths (JObj ps)"
    unfolding getKeys_leafPaths[OF wk] .
  then obtain p where p: "p \<in> leafPaths (JObj ps)" "k = join_dot p"
    by blast
  with split_join_leaf[OF wk p(1)] show ?thesis by (simp add: leafPaths_def)
qed

lemma leaf_is_key:
  "well_keyed (JObj ps) \<Longrightarrow> leafAt (JObj ps) (split_dot k) \<noteq> None \<Longrightarrow>
   k \<in> set (getKeys (JObj ps) [])"
proof -
  assume wk: "well_keyed (JObj ps)" and lf: "leafAt (JObj ps) (split_dot k) \<noteq> None"
  have "join_dot (split_dot k) = k" by (simp add: split_dot_def join_split)
  moreover have "split_dot k \<in> leafPaths (JObj ps)" using lf by (simp add: leafPaths_def)
  ultimately show ?thesis using wk by (metis getKeys_leafPaths image_eqI)
qed

subsection \<open>The removal loop\<close>

lemma removeLoop_leaves:
  "distinct (map key ks) \<Longrightarrow>
   \<forall>s \<in> set ks. leafAt (JObj ps) (split_dot (key s)) \<noteq> None \<Longrightarrow>
   \<exists>ps'. removeLoop (JObj ps) ks n = (n + length ks, JObj ps') \<and>
         (\<forall>q. leafAt (JObj ps') q =
                (if q \<in> (\<lambda>s. split_dot (key s)) ` set ks then None else leafAt (JObj ps) q))"
proof (induction ks arbitrary: ps n)
  case Nil
  then show ?case by simp
next
  case (Cons s rest)
  from Cons.prems(2) obtain l where "leafAt (JObj ps) (split_dot (key s)) = Some l" by auto
  from removeKey_leaf[OF this] obtain ps1 where
    rm: "removeKey (JObj ps) (split_dot (key s)) = (True, JObj ps1)"
    and lv: "\<forall>q. leafAt (JObj ps1) q = (if q = split_dot (key s) then None else leafAt (JObj ps) q)"
    by blast
  have other: "split_dot (key s') \<noteq> split_dot (key s)" if "s' \<in> set rest" for s'
  proof
    assume "split_dot (key s') = split_dot (key s)"
    then have "key s' = key s" by (rule split_dot_inj)
    then have "key s \<in> key ` set rest" using that by (metis imageI)
    then show False using Cons.prems(1) by simp
  qed
  then have "\<forall>s' \<in> set rest. leafAt (JObj ps1) (split_dot (key s')) \<noteq> None"
    using lv Cons.prems(2) by simp
  from Cons.IH[OF _ this, of "Suc n"] Cons.prems(1) obtain ps' where
    rec: "removeLoop (JObj ps1) rest (Suc n) = (Suc n + length rest, JObj ps')"
    and lv': "\<forall>q. leafAt (JObj ps') q =
                (if q \<in> (\<lambda>s. split_dot (key s)) ` set rest then None else leafAt (JObj ps1) q)"
    by auto
  have "removeLoop (JObj ps) (s # rest) n = (n + length (s # rest), JObj ps')"
    using rm rec by simp
  moreover have "\<forall>q. leafAt (JObj ps') q =
      (if q \<in> (\<lambda>s. split_dot (key s)) ` set (s # rest) then None else leafAt (JObj ps) q)"
    using lv lv' by auto
  ultimately show ?case by blast
qed

lemma well_keyed_removeLoop: "well_keyed t \<Longrightarrow> well_keyed (snd (removeLoop t ks n))"
proof (induction ks arbitrary: t n)
  case Nil
  then show ?case by simp
next
  case (Cons s rest)
  from well_keyed_removeKey[OF Cons.prems, of "split_dot (key s)"] Cons.IH
  show ?case by (auto split: prod.splits)
qed

text \<open>Removing a set of flattened keys of a well-keyed tree removes exactly those keys.\<close>

lemma removeLoop_keys:
  assumes wk: "well_keyed (JObj ps)"
    and d: "distinct (map key ks)"
    and sub: "key ` set ks \<subseteq> set (getKeys (JObj ps) [])"
  shows "\<exists>ps'. removeLoop (JObj ps) ks 0 = (length ks, JObj ps') \<and>
               set (getKeys (JObj ps') []) = set (getKeys (JObj ps) []) - key ` set ks \<and>
               (\<forall>k \<in> set (getKeys (JObj ps') []).
                   leafAt (JObj ps') (split_dot k) = leafAt (JObj ps) (split_dot k))"
proof -
  have "\<forall>s \<in> set ks. leafAt (JObj ps) (split_dot (key s)) \<noteq> None"
    using sub key_is_leaf[OF wk] by auto
  from removeLoop_leaves[OF d this, of 0] obtain ps' where
    run: "removeLoop (JObj ps) ks 0 = (length ks, JObj ps')"
    and lv: "\<forall>q. leafAt (JObj ps') q =
                (if q \<in> (\<lambda>s. split_dot (key s)) ` set ks then None else leafAt (JObj ps) q)"
    by auto
  have wk': "well_keyed (JObj ps')"
    using well_keyed_removeLoop[OF wk, of ks 0] run by simp
  have keys: "k \<in> set (getKeys (JObj ps') []) \<longleftrightarrow> k \<in> set (getKeys (JObj ps) []) \<and> k \<notin> key ` set ks" for k
  proof
    assume "k \<in> set (getKeys (JObj ps') [])"
    from key_is_leaf[OF wk' this] lv
    have "split_dot k \<notin> (\<lambda>s. split_dot (key s)) ` set ks" "leafAt (JObj ps) (split_dot k) \<noteq> None"
      by (auto split: if_splits)
    then show "k \<in> set (getKeys (JObj ps) []) \<and> k \<notin> key ` set ks"
      using leaf_is_key[OF wk] by auto
  next
    assume a: "k \<in> set (getKeys (JObj ps) []) \<and> k \<notin> key ` set ks"
    then have "split_dot k \<notin> (\<lambda>s. split_dot (key s)) ` set ks"
      by (auto dest: split_dot_inj)
    with lv key_is_leaf[OF wk, of k] a have "leafAt (JObj ps') (split_dot k) \<noteq> None" by simp
    then show "k \<in> set (getKeys (JObj ps') [])" using leaf_is_key[OF wk'] by simp
  qed
  have vals: "leafAt (JObj ps') (split_dot k) = leafAt (JObj ps) (split_dot k)"
    if "k \<in> set (getKeys (JObj ps') [])" for k
  proof -
    from that keys have "k \<notin> key ` set ks" by simp
    then have "split_dot k \<notin> (\<lambda>s. split_dot (key s)) ` set ks" by (auto dest: split_dot_inj)
    with lv show ?thesis by simp
  qed
  from run keys vals show ?thesis by auto
qed


section \<open>Mutation operations: delete-unused\<close>

lemma analysis_keys_distinct:
  assumes "analyzeLocales cmp cfg scanned w0 = (Some results, w)"
  shows "distinct (map key (keyStatuses results))"
proof -
  from analyzeLocales_Some[OF assms] obtain ks :: "string list" and mk :: "string \<Rightarrow> KeyStatus" where
    st: "keyStatuses results = sort_by (\<lambda>a b. cmp (key a) (key b)) (map mk (new_Set ks))"
    and mk: "\<And>k. key (mk k) = k"
    by (metis (no_types, lifting) KeyStatus.select_convs(1))
  have "map key (map mk (new_Set ks)) = new_Set ks" by (simp add: mk comp_def)
  then show ?thesis by (simp add: st distinct_map_sort_by distinct_new_Set)
qed

lemma analysis_unused_keys:
  assumes an: "analyzeLocales cmp cfg scanned w0 = (Some results, w)"
    and l: "l = ''en'' \<or> l = ''es''"
    and doc: "files w (localePath (localesDir results) l) = Doc (JObj ps)"
  shows "key ` set (keysInLocaleOnly results l) = set (getKeys (JObj ps) []) - set scanned"
proof -
  from analyzeLocales_Some[OF an] obtain en es where
    en: "fst (loadLocale ''en'' (localesDir results) w0) = en"
    and es: "fst (loadLocale ''es'' (localesDir results) w0) = es"
    and st: "keyStatuses results =
      sort_by (\<lambda>a b. cmp (key a) (key b))
        (map (\<lambda>k. \<lparr>key = k, inCode = (k \<in> set scanned), inEN = (k \<in> set (getKeys en [])),
                    inES = (truthy es \<and> k \<in> set (getKeys es []))\<rparr>)
           (new_Set (new_Set (getKeys en [] @ (if truthy es then getKeys es [] else [])) @ scanned)))"
    and fl: "files w = files w0"
    by auto
  let ?mk = "\<lambda>k. \<lparr>key = k, inCode = (k \<in> set scanned), inEN = (k \<in> set (getKeys en [])),
                    inES = (truthy es \<and> k \<in> set (getKeys es []))\<rparr>"
  let ?ks = "new_Set (new_Set (getKeys en [] @ (if truthy es then getKeys es [] else [])) @ scanned)"
  let ?P = "\<lambda>s. (if l = ''en'' then inEN s else inES s) \<and> \<not> inCode s"
  have "key ` set (keysInLocaleOnly results l) = key ` {s \<in> ?mk ` set ?ks. ?P s}"
    unfolding keysInLocaleOnly_def st by (simp add: set_sort_by)
  also have "\<dots> = {k \<in> set ?ks. ?P (?mk k)}"
    by force
  finally have sel: "key ` set (keysInLocaleOnly results l) = {k \<in> set ?ks. ?P (?mk k)}" .
  show ?thesis
  proof (cases "l = ''en''")
    case True
    have "en = JObj ps"
      using en doc fl True by (simp add: loadLocale_def)
    then show ?thesis unfolding sel using True by (auto simp: set_new_Set)
  next
    case False
    with l have l': "l = ''es''" by simp
    have "es = JObj ps"
      using es doc fl l' by (simp add: loadLocale_def)
    then show ?thesis unfolding sel using l' by (auto simp: set_new_Set)
  qed
qed

text \<open>
  Claim C7, as the spec states it: with both confirmations affirmed, exactly the unused
  keys are removed. A key that contains the separator is flattened to itself and then
  looked for as a path: with \<^verbatim>\<open>{"a.b": "1"}\<close> in \<^verbatim>\<open>en.json\<close> and no key used in code,
  the unused key \<^verbatim>\<open>a.b\<close> is listed, both confirmations are given, and the file is
  written back with the key still in it.
\<close>

theorem deleteUnused_keys_with_separator_counterexample:
  "analyzeLocales letters_localeCompare example_config [] (world_dotted [''y'', ''y''])
     = (Some dotted_results, world_dotted [''y'', ''y'']) \<and>
   map key (keysInLocaleOnly dotted_results ''en'') = [''a.b''] \<and>
   fst (deleteKeysFromLocale dotted_results ''en'' (world_dotted [''y'', ''y''])) = Completed \<and>
   writes (snd (deleteKeysFromLocale dotted_results ''en'' (world_dotted [''y'', ''y''])))
     = [(''src/locales/en.json'', JObj [(''a.b'', JStr ''1'')])] \<and>
   getKeys (JObj [(''a.b'', JStr ''1'')]) [] = [''a.b'']"
  by (simp add: eval_defs run_defs world_dotted_def dotted_results_def set_add_def)

text \<open>
  Claim C7, amended. Delete-unused writes at most once; unless the first two answers are
  both affirmative, it writes nothing and every file is as before. After a fresh analysis, for a locale file that is an object with no
  empty key and no key containing the separator, and with at least one unused key: when
  both confirmations are affirmed the operation completes with one write of the updated
  tree, whose flattened keys are exactly those of the file that are used in code, each
  with the leaf it had.
\<close>

theorem deleteUnused_two_confirmations:
  "(deleteKeysFromLocale results l w = (out, w') \<longrightarrow>
      ((\<exists>a1 a2 rest. stdin w = a1 # a2 # rest \<and> affirmative a1 \<and> affirmative a2) \<or>
       (writes w' = writes w \<and> files w' = files w)) \<and>
      (\<exists>new. writes w' = writes w @ new \<and> length new \<le> 1)) \<and>
   (deleteKeysFromLocale results l w = (out, w') \<longrightarrow>
    analyzeLocales localeCompare cfg scanned w0 = (Some results, w) \<longrightarrow>
    l = ''en'' \<or> l = ''es'' \<longrightarrow>
    files w (localePath (localesDir results) l) = Doc (JObj ps) \<longrightarrow>
    well_keyed (JObj ps) \<longrightarrow>
    (\<exists>k \<in> set (getKeys (JObj ps) []). k \<notin> set scanned) \<longrightarrow>
    stdin w = a1 # a2 # rest \<longrightarrow> affirmative a1 \<longrightarrow> affirmative a2 \<longrightarrow>
      (\<exists>ps'. out = Completed \<and>
             writes w' = writes w @ [(localePath (localesDir results) l, JObj ps')] \<and>
             set (getKeys (JObj ps') []) = set (getKeys (JObj ps) []) \<inter> set scanned \<and>
             (\<forall>k \<in> set (getKeys (JObj ps') []).
                 leafAt (JObj ps') (split_dot k) = leafAt (JObj ps) (split_dot k))))"
proof (intro conjI impI)
  assume del: "deleteKeysFromLocale results l w = (out, w')"
  from deleteKeys_effect[OF del]
  show "(\<exists>a1 a2 rest. stdin w = a1 # a2 # rest \<and> affirmative a1 \<and> affirmative a2) \<or>
        (writes w' = writes w \<and> files w' = files w)"
    unfolding affirmative_def by blast
  from deleteKeys_effect[OF del] consider
    (idle) "writes w' = writes w @ []" |
    (written) d where "writes w' = writes w @ [(localePath (localesDir results) l, d)]"
    by auto
  then show "\<exists>new. writes w' = writes w @ new \<and> length new \<le> 1"
  proof cases
    case idle
    then have "writes w' = writes w @ [] \<and> length ([] :: (string \<times> json) list) \<le> 1" by simp
    then show ?thesis by (rule exI)
  next
    case written
    then have "writes w' = writes w @ [(localePath (localesDir results) l, d)] \<and>
               length [(localePath (localesDir results) l, d)] \<le> 1" by simp
    then show ?thesis by (rule exI)
  qed
next
  assume del: "deleteKeysFromLocale results l w = (out, w')"
    and an: "analyzeLocales localeCompare cfg scanned w0 = (Some results, w)"
    and l: "l = ''en'' \<or> l = ''es''"
    and doc: "files w (localePath (localesDir results) l) = Doc (JObj ps)"
    and wk: "well_keyed (JObj ps)"
    and some: "\<exists>k \<in> set (getKeys (JObj ps) []). k \<notin> set scanned"
    and st: "stdin w = a1 # a2 # rest"
    and y: "affirmative a1" "affirmative a2"
  let ?ks = "keysInLocaleOnly results l"
  let ?path = "localePath (localesDir results) l"
  have unused: "key ` set ?ks = set (getKeys (JObj ps) []) - set scanned"
    by (rule analysis_unused_keys[OF an l doc])
  with some have ne: "?ks \<noteq> []" by auto
  have ld: "loadLocale l (localesDir results) (w\<lparr>stdin := rest\<rparr>) = (JObj ps, w\<lparr>stdin := rest\<rparr>)"
    using doc by (simp add: loadLocale_def)
  have run: "deleteKeysFromLocale results l w =
      (Completed, writeFile ?path (snd (removeLoop (JObj ps) ?ks 0)) (w\<lparr>stdin := rest\<rparr>))"
    using ne st y ld
    by (simp add: deleteKeysFromLocale_def askConfirmation_def affirmative_def split: prod.splits)
  have d: "distinct (map key ?ks)"
    using analysis_keys_distinct[OF an] by (simp add: keysInLocaleOnly_def distinct_map_filter)
  from removeLoop_keys[OF wk d] unused obtain ps' where
    rl: "removeLoop (JObj ps) ?ks 0 = (length ?ks, JObj ps')"
    and keys: "set (getKeys (JObj ps') []) = set (getKeys (JObj ps) []) - key ` set ?ks"
    and vals: "\<forall>k \<in> set (getKeys (JObj ps') []).
                 leafAt (JObj ps') (split_dot k) = leafAt (JObj ps) (split_dot k)"
    by auto
  have "out = Completed" "writes w' = writes w @ [(?path, JObj ps')]"
    using del run rl by (auto simp: writeFile_def)
  moreover have "set (getKeys (JObj ps') []) = set (getKeys (JObj ps) []) \<inter> set scanned"
    using keys unused by auto
  ultimately show "\<exists>ps'. out = Completed \<and>
             writes w' = writes w @ [(?path, JObj ps')] \<and>
             set (getKeys (JObj ps') []) = set (getKeys (JObj ps) []) \<inter> set scanned \<and>
             (\<forall>k \<in> set (getKeys (JObj ps') []).
                 leafAt (JObj ps') (split_dot k) = leafAt (JObj ps) (split_dot k))"
    using vals by blast
qed


theorem deleteUnused_two_confirmations_witness:
  "fst (deleteKeysFromLocale example_results ''en'' (example_world [''y'', ''YES''])) = Completed \<and>
   writes (snd (deleteKeysFromLocale example_results ''en'' (example_world [''y'', ''YES''])))
     = [(''src/locales/en.json'', JObj [(''a'', JStr ''1'')])] \<and>
   set (getKeys (JObj [(''a'', JStr ''1'')]) [])
     = set (getKeys (JObj [(''a'', JStr ''1''), (''b'', JStr ''2'')]) []) \<inter> set [''a'', ''c''] \<and>
   writes (snd (deleteKeysFromLocale example_results ''en'' (example_world [''y'', ''no''])))
     = writes (example_world [''y'', ''no'']) \<and>
   files (snd (deleteKeysFromLocale example_results ''en'' (example_world [''y'', ''no''])))
     = files (example_world [''y'', ''no'']) \<and>
   writes (snd (deleteKeysFromLocale example_results ''en'' (example_world [''n'', ''y''])))
     = writes (example_world [''n'', ''y'']) \<and>
   files (snd (deleteKeysFromLocale example_results ''en'' (example_world [''n'', ''y''])))
     = files (example_world [''n'', ''y''])"
proof -
  let ?run = "\<lambda>input. deleteKeysFromLocale example_results ''en'' (example_world input)"
  let ?en = "[(''a'', JStr ''1''), (''b'', JStr ''2'')]"
  have pair: "?run input = (fst (?run input), snd (?run input))" for input by simp
  note inst = deleteUnused_two_confirmations[of example_results "''en''" _ _ _
      letters_localeCompare example_config "[''a'', ''c'']" _ ?en]
  have doc: "files (example_world input) (localePath (localesDir example_results) ''en'') = Doc (JObj ?en)"
    for input by (simp add: run_defs)
  have wk: "well_keyed (JObj ?en)" by (simp add: segment_ok_def)
  have unused: "\<exists>k \<in> set (getKeys (JObj ?en) []). k \<notin> set [''a'', ''c'']"
    by (simp add: set_add_def)
  have st: "stdin (example_world [''y'', ''YES'']) = ''y'' # ''YES'' # []" by (simp add: run_defs)
  have yes: "affirmative ''y''" "affirmative ''YES''" "\<not> affirmative ''no''" "\<not> affirmative ''n''"
    by (simp_all add: affirmative_def toLowerCase_def toLowerChar_def)
  from inst[THEN conjunct2, rule_format, OF pair example_results_analysis _ doc wk unused st yes(1,2)]
  obtain ps' where
    "writes (snd (?run [''y'', ''YES''])) = writes (example_world [''y'', ''YES'']) @
        [(localePath (localesDir example_results) ''en'', JObj ps')]"
    "set (getKeys (JObj ps') []) = set (getKeys (JObj ?en) []) \<inter> set [''a'', ''c'']"
    by auto
  with example_delete_run have yes_run:
    "set (getKeys (JObj [(''a'', JStr ''1'')]) []) = set (getKeys (JObj ?en) []) \<inter> set [''a'', ''c'']"
    by (simp add: run_defs)
  have no2: "writes (snd (?run [''y'', ''no''])) = writes (example_world [''y'', ''no'']) \<and>
             files (snd (?run [''y'', ''no''])) = files (example_world [''y'', ''no''])"
    using inst[THEN conjunct1, rule_format, OF pair, THEN conjunct1, of "[''y'', ''no'']"] yes(3)
    by (auto simp: run_defs)
  have no1: "writes (snd (?run [''n'', ''y''])) = writes (example_world [''n'', ''y'']) \<and>
             files (snd (?run [''n'', ''y''])) = files (example_world [''n'', ''y''])"
    using inst[THEN conjunct1, rule_format, OF pair, THEN conjunct1, of "[''n'', ''y'']"] yes(4)
    by (auto simp: run_defs)
  from example_delete_run yes_run no1 no2 show ?thesis by simp
qed

section \<open>Key extractor: flatten and re-nest\<close>

subsection \<open>The entries are the string leaves\<close>

lemma entries_Cons:
  assumes "k \<notin> fst ` set ps"
  shows "{(p, s). leafAt (JObj ((k, v) # ps)) p = Some (JStr s)} =
         (\<lambda>(p, s). (k # p, s)) ` {(p, s). leafAt v p = Some (JStr s)} \<union>
         {(p, s). leafAt (JObj ps) p = Some (JStr s)}"
proof -
  have none: "map_of ps k = None" using assms by (simp add: map_of_eq_None_iff)
  show ?thesis
  proof (intro set_eqI iffI)
    fix x assume "x \<in> {(p, s). leafAt (JObj ((k, v) # ps)) p = Some (JStr s)}"
    then show "x \<in> (\<lambda>(p, s). (k # p, s)) ` {(p, s). leafAt v p = Some (JStr s)} \<union>
         {(p, s). leafAt (JObj ps) p = Some (JStr s)}"
      by (cases x; cases "fst x") (auto split: if_splits)
  next
    fix x assume "x \<in> (\<lambda>(p, s). (k # p, s)) ` {(p, s). leafAt v p = Some (JStr s)} \<union>
         {(p, s). leafAt (JObj ps) p = Some (JStr s)}"
    then show "x \<in> {(p, s). leafAt (JObj ((k, v) # ps)) p = Some (JStr s)}"
      using none by (cases x; cases "fst x") (auto split: option.splits)
  qed
qed

lemma getEntries_leaves_aux:
  "(\<forall>ps. t = JObj ps \<longrightarrow> well_keyed t \<longrightarrow>
      set (getEntries t pre) =
        (\<lambda>(p, s). (with_prefix pre (join_dot p), s)) ` {(p, s). leafAt t p = Some (JStr s)})"
  "(distinct (map fst qs) \<longrightarrow> well_keyed_props qs \<longrightarrow>
      set (getEntries_loop qs pre') =
        (\<lambda>(p, s). (with_prefix pre' (join_dot p), s)) ` {(p, s). leafAt (JObj qs) p = Some (JStr s)})"
proof (induction t pre and qs pre' rule: getEntries_getEntries_loop.induct)
  case (1 ps pre)
  then show ?case by simp
next
  case (7 pre)
  then show ?case by simp
next
  case (8 k v ps pre)
  let ?G = "\<lambda>(p, s). (with_prefix pre (join_dot p), s)"
  let ?full = "if pre \<noteq> [] then pre @ ''.'' @ k else k"
  let ?here = "case v of JObj cs \<Rightarrow> getEntries v ?full | JStr s \<Rightarrow> [(?full, s)] | _ \<Rightarrow> []"
  let ?E = "\<lambda>t. {(p, s). leafAt t p = Some (JStr s)}"
  show ?case
  proof (intro impI)
    assume d: "distinct (map fst ((k, v) # ps))" and wk: "well_keyed_props ((k, v) # ps)"
    then have k: "k \<notin> fst ` set ps" "k \<noteq> []" "well_keyed v" "distinct (map fst ps)" "well_keyed_props ps"
      by (auto simp: segment_ok_def)
    have here: "set ?here = ?G ` ((\<lambda>(p, s). (k # p, s)) ` ?E v)"
    proof (cases "\<exists>cs. v = JObj cs")
      case True
      then obtain cs where cs: "v = JObj cs" by blast
      have "set (getEntries v ?full) = (\<lambda>(p, s). (with_prefix ?full (join_dot p), s)) ` ?E v"
        using "8.IH"(1)[of ?full cs] cs k(3) by simp
      also have "\<dots> = ?G ` ((\<lambda>(p, s). (k # p, s)) ` ?E v)"
      proof -
        have "with_prefix ?full (join_dot p) = with_prefix pre (join_dot (k # p))"
          if "(p, s) \<in> ?E v" for p s
        proof -
          from that cs have "p \<noteq> []" by auto
          then obtain a as where "p = a # as" by (cases p) auto
          then show ?thesis using k(2) by (simp add: with_prefix_def)
        qed
        then show ?thesis by (force simp: image_iff)
      qed
      finally show ?thesis using cs by simp
    next
      case False
      then show ?thesis by (cases v) (auto simp: with_prefix_def image_iff split: if_splits)
    qed
    have "set (getEntries_loop ((k, v) # ps) pre) = set ?here \<union> set (getEntries_loop ps pre)"
      by (simp add: Let_def)
    also have "\<dots> = set ?here \<union> ?G ` ?E (JObj ps)"
      using "8.IH"(2)[of ?full] k(4,5) by simp
    also have "\<dots> = ?G ` ?E (JObj ((k, v) # ps))"
      unfolding here entries_Cons[OF k(1)] by (simp add: image_Un)
    finally show "set (getEntries_loop ((k, v) # ps) pre) = ?G ` ?E (JObj ((k, v) # ps))" .
  qed
qed simp_all

lemma getEntries_leaves:
  "well_keyed (JObj ps) \<Longrightarrow>
   set (getEntries (JObj ps) []) = (\<lambda>(p, s). (join_dot p, s)) ` {(p, s). leafAt (JObj ps) p = Some (JStr s)}"
  using getEntries_leaves_aux(1)[of "JObj ps" "[]"] by (simp add: with_prefix_def)

lemma string_leaves_leaf:
  "string_leaves t \<Longrightarrow> leafAt t p = Some l \<Longrightarrow> \<exists>s. l = JStr s"
proof (induction p arbitrary: t)
  case Nil
  then show ?case by (cases t) auto
next
  case (Cons k p)
  from Cons.prems(2) obtain ps c where t: "t = JObj ps" "map_of ps k = Some c" "leafAt c p = Some l"
    by (cases t) (auto split: option.splits if_splits)
  have "string_leaves_props qs \<Longrightarrow> map_of qs k = Some c \<Longrightarrow> string_leaves c" for qs
    by (induction qs) (auto split: if_splits)
  with Cons.prems(1) t have "string_leaves c" by simp
  with Cons.IH t(3) show ?case by blast
qed


subsection \<open>Re-nesting the entries\<close>

lemma well_keyed_setNestedKey:
  "setNestedKey obj p v = Some obj' \<Longrightarrow> well_keyed (JObj obj) \<Longrightarrow> p \<noteq> [] \<Longrightarrow>
   \<forall>k \<in> set p. segment_ok k \<Longrightarrow> well_keyed (JObj obj')"
proof (induction obj p v arbitrary: obj' rule: setNestedKey.induct)
  case (1 obj v)
  then show ?case by simp
next
  case (2 obj k v)
  then show ?case
    by (auto simp: well_keyed_props_update AList.distinct_update split: if_splits)
next
  case (3 obj k k2 rest v)
  let ?child = "case map_of obj k of Some (JObj cs) \<Rightarrow> cs | _ \<Rightarrow> []"
  show ?case
  proof (cases "inherited_accessor obj k")
    case True
    then show ?thesis using "3.prems" by (auto split: if_splits)
  next
    case False
    with "3.prems"(1) obtain c' where c': "setNestedKey ?child (k2 # rest) v = Some c'"
      "obj' = AList.update k (JObj c') obj"
      by auto
    have "well_keyed (JObj ?child)"
    proof (cases "map_of obj k")
      case None
      then show ?thesis by simp
    next
      case (Some c)
      with well_keyed_child[OF "3.prems"(2) Some] show ?thesis by (cases c) simp_all
    qed
    with "3.IH"[OF False c'(1)] "3.prems" have "well_keyed (JObj c')" by simp
    with "3.prems" c'(2) show ?thesis by (simp add: well_keyed_props_update AList.distinct_update)
  qed
qed

lemma well_keyed_unflatten_from:
  "unflatten_from obj es = Some r \<Longrightarrow> well_keyed (JObj obj) \<Longrightarrow>
   \<forall>(k, s) \<in> set es. \<forall>seg \<in> set (split_dot k). segment_ok seg \<Longrightarrow>
   well_keyed (JObj r)"
proof (induction es arbitrary: obj)
  case Nil
  then show ?case by simp
next
  case (Cons e es)
  obtain k s where e: "e = (k, s)" by (cases e)
  from Cons.prems(1) obtain obj' where step: "setNestedKey obj (split_dot k) s = Some obj'"
    and rest: "unflatten_from obj' es = Some r"
    by (auto simp: e split: option.splits)
  have "well_keyed (JObj obj')"
    using well_keyed_setNestedKey[OF step Cons.prems(2) split_dot_nonempty] Cons.prems(3) e by auto
  from Cons.IH[OF rest this] Cons.prems(3) show ?case by simp
qed

lemma leafAt_unflatten_from:
  assumes "\<forall>(k, s) \<in> set es. leafAt t (split_dot k) = Some (JStr s) \<and> accessor_free k"
  shows "\<exists>r. unflatten_from obj es = Some r \<and>
          (\<forall>q. leafAt (JObj r) q =
             (if q \<in> (\<lambda>e. split_dot (fst e)) ` set es then leafAt t q
              else if \<exists>e \<in> set es. comparable (split_dot (fst e)) q then None
              else leafAt (JObj obj) q))"
  using assms
proof (induction es arbitrary: obj)
  case Nil
  then show ?case by simp
next
  case (Cons e es)
  obtain k s where e: "e = (k, s)" by (cases e)
  let ?p = "split_dot k"
  let ?P = "(\<lambda>e. split_dot (fst e)) ` set es"
  have leaf: "leafAt t ?p = Some (JStr s)" and free: "''__proto__'' \<notin> set ?p"
    using Cons.prems e by (simp_all add: accessor_free_def)
  have rest: "\<forall>(k, s) \<in> set es. leafAt t (split_dot k) = Some (JStr s) \<and> accessor_free k"
    using Cons.prems by simp
  from leafAt_setNestedKey[OF split_dot_nonempty free, of obj s] obtain obj' where
    set: "setNestedKey obj ?p s = Some obj'"
    and step: "\<And>q. leafAt (JObj obj') q =
      (if q = ?p then Some (JStr s) else if comparable ?p q then None else leafAt (JObj obj) q)"
    by blast
  from Cons.IH[OF rest, of obj'] obtain r where r: "unflatten_from obj' es = Some r"
    and ih: "\<And>q. leafAt (JObj r) q =
      (if q \<in> ?P then leafAt t q
       else if \<exists>e \<in> set es. comparable (split_dot (fst e)) q then None
       else leafAt (JObj obj') q)"
    by blast
  have res: "unflatten_from obj (e # es) = Some r" using set r by (simp add: e)
  have clash: False if "q = ?p" "q \<notin> ?P" "e' \<in> set es" "comparable (split_dot (fst e')) q" for e' q
  proof -
    from rest that(3) have "leafAt t (split_dot (fst e')) = Some (JStr (snd e'))"
      by (cases e') auto
    from leaves_incomparable[OF this leaf] that(1,4) have "split_dot (fst e') = q" by simp
    with that(2,3) show False by blast
  qed
  have "leafAt (JObj r) q =
      (if q \<in> (\<lambda>e. split_dot (fst e)) ` set (e # es) then leafAt t q
       else if \<exists>e' \<in> set (e # es). comparable (split_dot (fst e')) q then None
       else leafAt (JObj obj) q)" for q
  proof (cases "q \<in> ?P")
    case True
    then show ?thesis using ih[of q] by (simp add: e)
  next
    case notP: False
    show ?thesis
    proof (cases "q = ?p")
      case True
      then show ?thesis using ih[of q] step[of q] notP leaf clash[of q] by (auto simp: e)
    next
      case False
      then show ?thesis using ih[of q] step[of q] notP by (auto simp: e)
    qed
  qed
  with res show ?case by blast
qed

lemma unflatten_leaves:
  assumes wk: "well_keyed (JObj ps)" and sl: "string_leaves (JObj ps)"
    and free: "\<forall>k \<in> set (getKeys (JObj ps) []). accessor_free k"
  shows "\<exists>r. unflatten (getEntries (JObj ps) []) = Some r \<and> well_keyed (JObj r) \<and>
           (\<forall>q. leafAt (JObj r) q = leafAt (JObj ps) q)"
proof -
  let ?es = "getEntries (JObj ps) []"
  have entry: "\<exists>p. k = join_dot p \<and> split_dot k = p \<and> leafAt (JObj ps) p = Some (JStr s)"
    if "(k, s) \<in> set ?es" for k s
  proof -
    from that obtain p where p: "k = join_dot p" "leafAt (JObj ps) p = Some (JStr s)"
      unfolding getEntries_leaves[OF wk] by auto
    then have "p \<in> leafPaths (JObj ps)" by (simp add: leafPaths_def)
    from split_join_leaf[OF wk this] p show ?thesis by auto
  qed
  have sound: "\<forall>(k, s) \<in> set ?es. leafAt (JObj ps) (split_dot k) = Some (JStr s) \<and> accessor_free k"
  proof (intro ballI, clarify)
    fix k s assume "(k, s) \<in> set ?es"
    from entry[OF this] have lf: "leafAt (JObj ps) (split_dot k) = Some (JStr s)" by auto
    then have "k \<in> set (getKeys (JObj ps) [])" using leaf_is_key[OF wk, of k] by simp
    with free lf show "leafAt (JObj ps) (split_dot k) = Some (JStr s) \<and> accessor_free k" by simp
  qed
  have segs: "\<forall>(k, s) \<in> set ?es. \<forall>seg \<in> set (split_dot k). segment_ok seg"
    using sound leaf_path_segments[OF wk] by fast
  from leafAt_unflatten_from[OF sound, of "[]"] obtain r where
    r: "unflatten_from [] ?es = Some r"
    and lv: "\<And>q. leafAt (JObj r) q =
       (if q \<in> (\<lambda>e. split_dot (fst e)) ` set ?es then leafAt (JObj ps) q
        else if \<exists>e \<in> set ?es. comparable (split_dot (fst e)) q then None
        else leafAt (JObj []) q)"
    by blast
  have wkr: "well_keyed (JObj r)"
    by (rule well_keyed_unflatten_from[OF r _ segs]) simp
  have complete: "q \<in> (\<lambda>e. split_dot (fst e)) ` set ?es" if "leafAt (JObj ps) q = Some l" for l q
  proof -
    from string_leaves_leaf[OF sl that] obtain s where "l = JStr s" by blast
    with that have "(join_dot q, s) \<in> set ?es"
      unfolding getEntries_leaves[OF wk] by force
    moreover have "split_dot (join_dot q) = q"
      using split_join_leaf[OF wk, of q] that by (simp add: leafPaths_def)
    ultimately show ?thesis by force
  qed
  have "leafAt (JObj r) q = leafAt (JObj ps) q" for q
    unfolding lv[of q] using complete[of q] by (cases "leafAt (JObj ps) q") auto
  with r wkr show ?thesis by (simp add: unflatten_def)
qed


text \<open>
  Claim C4, as the spec states it: for every tree of plain objects with string leaves,
  re-nesting the flattened keys with their values gives back the same flattened keys.
  The tree \<^verbatim>\<open>{"a": "x", "a.b": "y"}\<close> flattens to the keys \<^verbatim>\<open>a\<close> and \<^verbatim>\<open>a.b\<close>;
  re-nesting them gives \<^verbatim>\<open>{a: {b: "y"}}\<close>, whose only flattened key is \<^verbatim>\<open>a.b\<close>.
\<close>

theorem flatten_unflatten_dotted_key_counterexample:
  "string_leaves (JObj [(''a'', JStr ''x''), (''a.b'', JStr ''y'')]) \<and>
   distinct (map fst [(''a'', JStr ''x''), (''a.b'', JStr ''y'')]) \<and>
   getKeys (JObj [(''a'', JStr ''x''), (''a.b'', JStr ''y'')]) [] = [''a'', ''a.b''] \<and>
   getEntries (JObj [(''a'', JStr ''x''), (''a.b'', JStr ''y'')]) [] = [(''a'', ''x''), (''a.b'', ''y'')] \<and>
   unflatten [(''a'', ''x''), (''a.b'', ''y'')] = Some [(''a'', JObj [(''b'', JStr ''y'')])] \<and>
   getKeys (JObj [(''a'', JObj [(''b'', JStr ''y'')])]) [] = [''a.b'']"
  by (simp add: unflatten_def split_dot_def set_add_def inherited_accessor_def)

text \<open>
  Claim C4, amended. For every tree of plain objects with string leaves in which no key
  is empty, no key contains the separator and no flattened key has a path segment
  \<^verbatim>\<open>__proto__\<close>, re-nesting the flattened keys with their leaf values returns a tree with
  the same set of flattened keys and the same value for each of them.
\<close>

theorem flatten_unflatten_roundtrip:
  assumes "well_keyed (JObj ps)" and "string_leaves (JObj ps)"
    and "\<forall>k \<in> set (getKeys (JObj ps) []). accessor_free k"
  shows "\<exists>t. unflatten (getEntries (JObj ps) []) = Some t \<and>
           set (getKeys (JObj t) []) = set (getKeys (JObj ps) []) \<and>
           set (getEntries (JObj t) []) = set (getEntries (JObj ps) [])"
proof -
  from unflatten_leaves[OF assms] obtain r where
    r: "unflatten (getEntries (JObj ps) []) = Some r" and wk: "well_keyed (JObj r)"
    and lv: "\<And>q. leafAt (JObj r) q = leafAt (JObj ps) q"
    by blast
  have "leafPaths (JObj r) = leafPaths (JObj ps)"
    by (simp only: leafPaths_def lv)
  then have "set (getKeys (JObj r) []) = set (getKeys (JObj ps) [])"
    by (simp only: getKeys_leafPaths[OF wk] getKeys_leafPaths[OF assms(1)])
  moreover have "set (getEntries (JObj r) []) = set (getEntries (JObj ps) [])"
    by (simp only: getEntries_leaves[OF wk] getEntries_leaves[OF assms(1)] lv)
  ultimately show ?thesis using r by simp
qed

theorem flatten_unflatten_roundtrip_witness:
  "well_keyed (JObj [(''a'', JObj [(''b'', JStr ''x''), (''c'', JStr ''y'')]), (''d'', JStr ''z'')]) \<and>
   string_leaves (JObj [(''a'', JObj [(''b'', JStr ''x''), (''c'', JStr ''y'')]), (''d'', JStr ''z'')]) \<and>
   getKeys (JObj [(''a'', JObj [(''b'', JStr ''x''), (''c'', JStr ''y'')]), (''d'', JStr ''z'')]) []
     = [''a.b'', ''a.c'', ''d''] \<and>
   map accessor_free [''a.b'', ''a.c'', ''d''] = [True, True, True] \<and>
   getEntries (JObj [(''a'', JObj [(''b'', JStr ''x''), (''c'', JStr ''y'')]), (''d'', JStr ''z'')]) []
     = [(''a.b'', ''x''), (''a.c'', ''y''), (''d'', ''z'')] \<and>
   set (getKeys (JObj (the (unflatten [(''a.b'', ''x''), (''a.c'', ''y''), (''d'', ''z'')]))) [])
     = set [''a.b'', ''a.c'', ''d''] \<and>
   set (getEntries (JObj (the (unflatten [(''a.b'', ''x''), (''a.c'', ''y''), (''d'', ''z'')]))) [])
     = set [(''a.b'', ''x''), (''a.c'', ''y''), (''d'', ''z'')]"
proof -
  let ?t = "[(''a'', JObj [(''b'', JStr ''x''), (''c'', JStr ''y'')]), (''d'', JStr ''z'')]"
  have wk: "well_keyed (JObj ?t)" by (simp add: segment_ok_def)
  have sl: "string_leaves (JObj ?t)" by simp
  have es: "getEntries (JObj ?t) [] = [(''a.b'', ''x''), (''a.c'', ''y''), (''d'', ''z'')]" by simp
  have ks: "getKeys (JObj ?t) [] = [''a.b'', ''a.c'', ''d'']" by (simp add: set_add_def)
  have fr: "map accessor_free [''a.b'', ''a.c'', ''d''] = [True, True, True]"
    by (simp add: accessor_free_def split_dot_def)
  have fr': "\<forall>k \<in> set (getKeys (JObj ?t) []). accessor_free k"
    unfolding ks using fr by simp
  from flatten_unflatten_roundtrip[OF wk sl fr'] obtain t where
    t: "unflatten [(''a.b'', ''x''), (''a.c'', ''y''), (''d'', ''z'')] = Some t"
    "set (getKeys (JObj t) []) = set [''a.b'', ''a.c'', ''d'']"
    "set (getEntries (JObj t) []) = set [(''a.b'', ''x''), (''a.c'', ''y''), (''d'', ''z'')]"
    unfolding es ks by blast
  have "the (unflatten [(''a.b'', ''x''), (''a.c'', ''y''), (''d'', ''z'')]) = t"
    by (simp only: t(1) option.sel)
  with t(2,3) wk sl ks es fr show ?thesis by (simp only: simp_thms)
qed

end
